theory Spec2Isabelle
  imports Main "HOL-Library.Multiset" "HOL-Library.List_Lexorder"
begin

section \<open>Distributed simplex mesh: GlobalSimplexMesh.h\<close>

text \<open>
  The class \<^verbatim>\<open>GlobalSimplexMesh<D>\<close> is an SPMD program: every rank of the communicator
  holds one object and all ranks call the same member function together. The model is
  global: the mesh is the list of the per-rank objects (index = rank, length = procs), a
  member function maps the list of all objects to the list of all objects, and a collective
  (all-to-all exchange, scan) is a function of the values of all ranks.

  A failing \<^verbatim>\<open>assert\<close> on any rank aborts the program (\<open>Inl AssertionFailed\<close>). Ranks
  that do not enter the same collective hang (\<open>Inl CollectiveMismatch\<close>). An index
  outside a vector is \<open>Inl OutOfRange\<close>.

  Vertex ids (\<^verbatim>\<open>uint64_t\<close>) are only copied and compared, counts are bounded by the number
  of stored items; both are natural numbers. Partition entries (\<^verbatim>\<open>idx_t\<close>, signed) are
  integers, since the partitioner is external and the send loop compares them with \<open>\<le>\<close>.
\<close>

datatype error = AssertionFailed | CollectiveMismatch | OutOfRange

text \<open>A simplex is the sorted list of its vertex ids; the order of simplices
  (\<^verbatim>\<open>operator<\<close> of the underlying array) is the lexicographic order of lists.\<close>

type_synonym simplex = "nat list"

fun collect :: "(error + 'a) list \<Rightarrow> error + 'a list" where
  "collect [] = Inr []"
| "collect (Inl e # xs) = Inl e"
| "collect (Inr x # xs) = (case collect xs of Inl e \<Rightarrow> Inl e | Inr ys \<Rightarrow> Inr (x # ys))"

subsection \<open>AllToAllV\<close>

text \<open>
  Modelled from the spec: \<^verbatim>\<open>parallel/CommPattern.h\<close> (class AllToAllV) is not among the
  sources. Section 4.3: the object holds per-rank send counts and receive counts with the
  displacements computed from them (prefix sums); constructed from send counts the receive
  counts come from a size exchange; \<^verbatim>\<open>exchange\<close> returns the receive buffer in rank
  order, of length the sum of the receive counts; \<^verbatim>\<open>swap\<close> exchanges the send and the
  receive roles.
\<close>

record AllToAllV =
  sendcounts :: "nat list"
  recvcounts :: "nat list"

definition displs :: "nat list \<Rightarrow> nat \<Rightarrow> nat" where
  "displs counts p = sum_list (take p counts)"

definition chunk :: "nat list \<Rightarrow> 'a list \<Rightarrow> nat \<Rightarrow> 'a list" where
  "chunk counts buf p = take (counts ! p) (drop (displs counts p) buf)"

definition AllToAllV_send :: "nat list list \<Rightarrow> AllToAllV list" where
  "AllToAllV_send sc =
     map (\<lambda>r. \<lparr>sendcounts = sc ! r, recvcounts = map (\<lambda>p. sc ! p ! r) [0..<length sc]\<rparr>)
       [0..<length sc]"

definition exchange :: "AllToAllV list \<Rightarrow> 'a list list \<Rightarrow> 'a list list" where
  "exchange a2a bufs =
     map (\<lambda>r. concat (map (\<lambda>p. take (recvcounts (a2a ! r) ! p)
                                  (chunk (sendcounts (a2a ! p)) (bufs ! p) r))
                        [0..<length a2a]))
       [0..<length a2a]"

definition swap_a2a :: "AllToAllV list \<Rightarrow> AllToAllV list" where
  "swap_a2a a2a = map (\<lambda>a. \<lparr>sendcounts = recvcounts a, recvcounts = sendcounts a\<rparr>) a2a"

subsection \<open>The mesh object\<close>

text \<open>
  The field \<^verbatim>\<open>elems_\<close> of the class is \<open>elems\<close> here. \<^verbatim>\<open>MeshData\<close> (not among the
  sources) is a table of rows, one per element; the pointer
  \<^verbatim>\<open>elementData\<close> may be null.
\<close>

record 'd GlobalSimplexMesh =
  elems :: "simplex list"
  elementData :: "'d list option"
  isPartitionedByHash :: bool

definition GlobalSimplexMesh_new :: "simplex list \<Rightarrow> 'd list option \<Rightarrow> 'd GlobalSimplexMesh" where
  "GlobalSimplexMesh_new elements elementDat =
     \<lparr>elems = elements, elementData = elementDat, isPartitionedByHash = False\<rparr>"

definition numElements :: "'d GlobalSimplexMesh \<Rightarrow> nat" where
  "numElements m = length (elems m)"

text \<open>
  \<^verbatim>\<open>getPlex2Rank<DD>\<close>. \<open>H\<close> is \<^verbatim>\<open>SimplexHash\<close> (Simplex.h, not among the sources), a
  parameter. For \<open>DD = 0\<close> with a vertex distribution the owner is looked up in
  \<^verbatim>\<open>vtxdist\<close> by \<^verbatim>\<open>SortedDistributionToRank\<close> (not among the sources): the parameter
  \<open>v2r\<close> is \<open>Some\<close> of that lookup when \<^verbatim>\<open>vtxdist.size() > 0\<close> and \<open>None\<close> otherwise.
\<close>

definition getPlex2Rank ::
  "(simplex \<Rightarrow> nat) \<Rightarrow> (nat \<Rightarrow> nat) option \<Rightarrow> nat \<Rightarrow> nat \<Rightarrow> simplex \<Rightarrow> nat" where
  "getPlex2Rank H v2r procs DD plex =
     (if DD = 0 then (case v2r of Some f \<Rightarrow> f (plex ! 0) | None \<Rightarrow> (plex ! 0) mod procs)
      else H plex mod procs)"

subsection \<open>doPartition\<close>

text \<open>
  \<^verbatim>\<open>std::sort\<close> with the comparator \<^verbatim>\<open>partition[a] < partition[b]\<close> is not a stable
  sort: its result is some permutation of the indices that is ordered by target rank.
  The result is a parameter of the model (\<open>enumeration\<close>) and \<open>std_sort_post\<close> is what
  \<^verbatim>\<open>std::sort\<close> guarantees about it.
\<close>

definition std_sort_post :: "int list \<Rightarrow> nat list \<Rightarrow> bool" where
  "std_sort_post part enumeration \<longleftrightarrow>
     sort enumeration = [0..<length part] \<and>
     sorted (map (\<lambda>i. part ! i) enumeration)"

text \<open>The loop of lines 174-180: for every rank \<open>p\<close> in turn, the indices whose target
  is at most \<open>p\<close> are taken from the front of what is left of the enumeration.\<close>

fun sendLoop :: "int list \<Rightarrow> nat list \<Rightarrow> nat list \<Rightarrow> nat list list \<times> nat list" where
  "sendLoop part eIt [] = ([], eIt)"
| "sendLoop part eIt (p # ps) =
     (let (gs, rest) = sendLoop part (dropWhile (\<lambda>i. part ! i \<le> int p) eIt) ps
      in (takeWhile (\<lambda>i. part ! i \<le> int p) eIt # gs, rest))"

text \<open>The local part of \<^verbatim>\<open>doPartition\<close> on one rank: the two assertions, the send counts
  and the send buffer of elements.\<close>

definition packElems ::
  "nat \<Rightarrow> int list \<Rightarrow> nat list \<Rightarrow> simplex list \<Rightarrow> error + (nat list \<times> simplex list)" where
  "packElems procs part enumeration els =
     (if length part \<noteq> length els then Inl AssertionFailed
      else let (gs, rest) = sendLoop part enumeration [0..<procs]
           in if rest \<noteq> [] then Inl AssertionFailed
              else Inr (map length gs, map (\<lambda>i. els ! i) (concat gs)))"

text \<open>
  Modelled from the spec: \<^verbatim>\<open>MeshData::redistributed\<close> is not among the sources.
  Section 4.4: the rows are gathered in permuted order and shipped with the exchange.
\<close>

definition gatherRows :: "nat list \<Rightarrow> 'd list \<Rightarrow> 'd list" where
  "gatherRows enumeration rows = map (\<lambda>i. rows ! i) enumeration"

definition doPartition ::
  "nat list list \<Rightarrow> int list list \<Rightarrow> 'd GlobalSimplexMesh list
     \<Rightarrow> error + 'd GlobalSimplexMesh list" where
  "doPartition enums partitions mesh =
     (let procs = length mesh in
      case collect (map (\<lambda>r. packElems procs (partitions ! r) (enums ! r) (elems (mesh ! r)))
                      [0..<procs]) of
        Inl e \<Rightarrow> Inl e
      | Inr packs \<Rightarrow>
          let a2a = AllToAllV_send (map fst packs);
              newElems = exchange a2a (map snd packs)
          in if list_all (\<lambda>m. elementData m = None) mesh then
               Inr (map (\<lambda>r. (mesh ! r)\<lparr>elems := newElems ! r\<rparr>) [0..<procs])
             else if list_ex (\<lambda>m. elementData m = None) mesh then Inl CollectiveMismatch
             else
               let newData = exchange a2a
                     (map (\<lambda>r. gatherRows (enums ! r) (the (elementData (mesh ! r)))) [0..<procs])
               in Inr (map (\<lambda>r. (mesh ! r)\<lparr>elems := newElems ! r,
                                           elementData := Some (newData ! r)\<rparr>) [0..<procs]))"

text \<open>\<^verbatim>\<open>repartition\<close>: the partition vectors are the results of the external partitioner
  (\<^verbatim>\<open>MetisPartitioner::partition\<close>), one per rank.\<close>

definition repartition ::
  "nat list list \<Rightarrow> int list list \<Rightarrow> 'd GlobalSimplexMesh list
     \<Rightarrow> error + 'd GlobalSimplexMesh list" where
  "repartition enums partitions mesh =
     (case doPartition enums partitions mesh of
        Inl e \<Rightarrow> Inl e
      | Inr m \<Rightarrow> Inr (map (\<lambda>s. s\<lparr>isPartitionedByHash := False\<rparr>) m))"

definition hashPartition ::
  "(simplex \<Rightarrow> nat) \<Rightarrow> (nat \<Rightarrow> nat) option \<Rightarrow> nat \<Rightarrow> nat \<Rightarrow> simplex list \<Rightarrow> int list" where
  "hashPartition H v2r procs D els = map (\<lambda>e. int (getPlex2Rank H v2r procs D e)) els"

text \<open>\<^verbatim>\<open>repartitionByHash\<close>: a rank whose flag is set returns at once; when only some
  ranks do, the others wait in the size exchange for ever.\<close>

definition repartitionByHash ::
  "(simplex \<Rightarrow> nat) \<Rightarrow> (nat \<Rightarrow> nat) option \<Rightarrow> nat \<Rightarrow> nat list list \<Rightarrow> 'd GlobalSimplexMesh list
     \<Rightarrow> error + 'd GlobalSimplexMesh list" where
  "repartitionByHash H v2r D enums mesh =
     (if list_all isPartitionedByHash mesh then Inr mesh
      else if list_ex isPartitionedByHash mesh then Inl CollectiveMismatch
      else case doPartition enums
                  (map (\<lambda>m. hashPartition H v2r (length mesh) D (elems m)) mesh) mesh of
             Inl e \<Rightarrow> Inl e
           | Inr m \<Rightarrow> Inr (map (\<lambda>s. s\<lparr>isPartitionedByHash := True\<rparr>) m))"

subsection \<open>Ghost growth\<close>

definition thenE :: "error + 'a \<Rightarrow> ('a \<Rightarrow> error + 'b) \<Rightarrow> error + 'b" where
  "thenE m f = (case m of Inl e \<Rightarrow> Inl e | Inr x \<Rightarrow> f x)"

text \<open>
  Modelled from the spec: \<^verbatim>\<open>Simplex<D>::downward<k>\<close> (Simplex.h) is not among the sources.
  Section 4.1: the k-faces of a simplex are its subsets of \<open>k + 1\<close> vertices, in
  lexicographic order of the vertex positions.
\<close>

definition downward :: "nat \<Rightarrow> simplex \<Rightarrow> simplex list" where
  "downward k s = filter (\<lambda>f. length f = Suc k) (subseqs s)"

text \<open>
  \<^verbatim>\<open>getBoundaryFaces\<close>. The \<^verbatim>\<open>unordered_multimap\<close> from faces to local element numbers
  is the list of its entries; the order in which the source iterates over it is not
  specified and is taken to be the order of insertion. In the loop of
  \<^verbatim>\<open>deleteInternalFaces\<close> the entries before the iterator have been kept, so none of them
  has the key of the current entry and the count is one more than the number of later
  entries with that key.
\<close>

definition upwardMap :: "nat \<Rightarrow> simplex list \<Rightarrow> (simplex \<times> nat) list" where
  "upwardMap D els =
     concat (map (\<lambda>elNo. map (\<lambda>s. (s, elNo)) (downward (D - 1) (els ! elNo))) [0..<length els])"

fun deleteInternalFaces :: "(simplex \<times> nat) list \<Rightarrow> error + (simplex \<times> nat) list" where
  "deleteInternalFaces [] = Inr []"
| "deleteInternalFaces (u # up) =
     (let count = Suc (length (filter (\<lambda>v. fst v = fst u) up)) in
      if \<not> count \<le> 2 then Inl AssertionFailed
      else if count > 1 then deleteInternalFaces (filter (\<lambda>v. fst v \<noteq> fst u) up)
      else thenE (deleteInternalFaces up) (\<lambda>r. Inr (u # r)))"

definition getBoundaryFaces :: "nat \<Rightarrow> simplex list \<Rightarrow> error + (simplex \<times> nat) list" where
  "getBoundaryFaces D els = deleteInternalFaces (upwardMap D els)"

text \<open>
  Lines 236-252 and 341-353: the items are counted per owner and written to the send
  buffer behind the offset of their owner, so the buffer holds the items of rank 0, then
  those of rank 1 and so on, in the order of iteration. An owner outside \<open>[0, procs)\<close>
  would index outside \<^verbatim>\<open>counts\<close>.
\<close>

definition bucket :: "nat \<Rightarrow> ('a \<Rightarrow> nat) \<Rightarrow> 'a list \<Rightarrow> error + (nat list \<times> 'a list)" where
  "bucket procs rk items =
     (if list_ex (\<lambda>u. procs \<le> rk u) items then Inl OutOfRange
      else Inr (map (\<lambda>p. length (filter (\<lambda>u. rk u = p) items)) [0..<procs],
                concat (map (\<lambda>p. filter (\<lambda>u. rk u = p) items) [0..<procs])))"

text \<open>
  \<^verbatim>\<open>deleteDomainBoundaryFaces\<close>: the faces are sent to their hash owners, every owner
  answers with the number of times it received the face, and the loop of lines 373-380
  removes the faces that were counted once from the upward map and records them.
\<close>

fun classifyFaces ::
  "(simplex \<times> nat) list \<Rightarrow> (simplex \<times> nat) list \<Rightarrow> simplex list
     \<Rightarrow> error + ((simplex \<times> nat) list \<times> simplex list)" where
  "classifyFaces [] up dbf = Inr (up, dbf)"
| "classifyFaces ((f, c) # rest) up dbf =
     (if \<not> (1 \<le> c \<and> c \<le> 2) then Inl AssertionFailed
      else if c = 1 then
        (if \<not> list_ex (\<lambda>u. fst u = f) up then Inl AssertionFailed
         else classifyFaces rest (filter (\<lambda>u. fst u \<noteq> f) up) (List.insert f dbf))
      else classifyFaces rest up dbf)"

definition deleteDomainBoundaryFaces ::
  "(simplex \<Rightarrow> nat) \<Rightarrow> (nat \<Rightarrow> nat) option \<Rightarrow> nat \<Rightarrow> (simplex \<times> nat) list list
     \<Rightarrow> error + ((simplex \<times> nat) list \<times> simplex list) list" where
  "deleteDomainBoundaryFaces H v2r D ups =
     (let procs = length ups in
      thenE (collect (map (\<lambda>up. bucket procs (getPlex2Rank H v2r procs (D - 1)) (map fst up)) ups))
        (\<lambda>bs.
          let a2a = AllToAllV_send (map fst bs);
              faces = map snd bs;
              requestedFaces = exchange a2a faces;
              requestedFaceCount = map (\<lambda>req. map (\<lambda>f. count_list req f) req) requestedFaces;
              faceCount = exchange (swap_a2a a2a) requestedFaceCount
          in collect (map (\<lambda>r. if length (faceCount ! r) \<noteq> length (faces ! r)
                                 then Inl AssertionFailed
                                 else classifyFaces (zip (faces ! r) (faceCount ! r)) (ups ! r) [])
                        [0..<procs])))"

text \<open>
  Lines 262-275, on the owner of the faces: for the i-th received pair the first entry of
  the face in \<^verbatim>\<open>requestedUp\<close> whose element differs from the i-th element is the answer,
  and the assertion fails when there is none.
\<close>

definition oppositeElems :: "simplex list \<Rightarrow> simplex list \<Rightarrow> error + simplex list" where
  "oppositeElems requestedBoundaryFaces requestedBoundaryElems =
     (let requestedUp = zip requestedBoundaryFaces requestedBoundaryElems in
      collect (map (\<lambda>i. case find (\<lambda>e. e \<noteq> requestedBoundaryElems ! i)
                                (map snd (filter (\<lambda>u. fst u = requestedBoundaryFaces ! i) requestedUp)) of
                           None \<Rightarrow> Inl AssertionFailed
                         | Some e \<Rightarrow> Inr e)
                 [0..<length requestedBoundaryElems]))"

text \<open>One iteration of the loop of \<^verbatim>\<open>getGhostElements\<close> (lines 217-284) on all ranks;
  the printing of lines 225-234 is left out.\<close>

definition ghostIteration ::
  "(simplex \<Rightarrow> nat) \<Rightarrow> (nat \<Rightarrow> nat) option \<Rightarrow> nat \<Rightarrow> bool \<Rightarrow> simplex list list \<Rightarrow> simplex list list
     \<Rightarrow> error + (simplex list list \<times> simplex list list)" where
  "ghostIteration H v2r D hasDomainBoundaryFaces domainBoundaryFaces els =
     (let procs = length els in
      thenE (collect (map (getBoundaryFaces D) els)) (\<lambda>ups0.
      thenE (if hasDomainBoundaryFaces
             then Inr (map (\<lambda>r. (filter (\<lambda>u. \<not> List.member (domainBoundaryFaces ! r) (fst u)) (ups0 ! r),
                                   domainBoundaryFaces ! r)) [0..<procs])
             else deleteDomainBoundaryFaces H v2r D ups0) (\<lambda>filtered.
      thenE (collect (map (\<lambda>f. bucket procs (\<lambda>u. getPlex2Rank H v2r procs (D - 1) (fst u)) (fst f))
                        filtered)) (\<lambda>bs.
        let a2a = AllToAllV_send (map fst bs);
            boundaryFaces = map (\<lambda>b. map fst (snd b)) bs;
            boundaryElems = map (\<lambda>r. map (\<lambda>u. els ! r ! snd u) (snd (bs ! r))) [0..<procs];
            requestedBoundaryFaces = exchange a2a boundaryFaces;
            requestedBoundaryElems = exchange a2a boundaryElems
        in thenE (collect (map (\<lambda>r. oppositeElems (requestedBoundaryFaces ! r)
                                         (requestedBoundaryElems ! r)) [0..<procs])) (\<lambda>replies.
             let received = exchange (swap_a2a a2a) replies
             in Inr (map snd filtered,
                     map (\<lambda>r. els ! r @ remdups_adj (sort (received ! r))) [0..<procs]))))))"

text \<open>
  The loop of lines 216-285. The variable \<^verbatim>\<open>hasDomainBoundaryFaces\<close> is initialised
  with \<^verbatim>\<open>false\<close> (line 213) and is assigned nowhere in the source, so every iteration
  receives the value of the previous one. The log records for every iteration which branch
  of lines 218-224 ran: the local filter or the round trip to the hash owners.
\<close>

datatype event = RoundTrip nat | LocalFilter nat

fun ghostLoop ::
  "(simplex \<Rightarrow> nat) \<Rightarrow> (nat \<Rightarrow> nat) option \<Rightarrow> nat \<Rightarrow> nat \<Rightarrow> nat \<Rightarrow> bool \<Rightarrow> simplex list list
     \<Rightarrow> simplex list list \<Rightarrow> event list \<Rightarrow> error + (simplex list list \<times> event list)" where
  "ghostLoop H v2r D 0 ol hasDomainBoundaryFaces domainBoundaryFaces els log = Inr (els, log)"
| "ghostLoop H v2r D (Suc k) ol hasDomainBoundaryFaces domainBoundaryFaces els log =
     thenE (ghostIteration H v2r D hasDomainBoundaryFaces domainBoundaryFaces els)
       (\<lambda>(dbf, els').
          ghostLoop H v2r D k (Suc ol) hasDomainBoundaryFaces dbf els'
            (log @ [if hasDomainBoundaryFaces then LocalFilter ol else RoundTrip ol]))"

definition getGhostElements ::
  "(simplex \<Rightarrow> nat) \<Rightarrow> (nat \<Rightarrow> nat) option \<Rightarrow> nat \<Rightarrow> simplex list list \<Rightarrow> nat
     \<Rightarrow> error + (simplex list list \<times> event list)" where
  "getGhostElements H v2r D els overlap =
     ghostLoop H v2r D overlap 1 False (map (\<lambda>_. []) els) els []"

subsection \<open>The local view of the elements\<close>

text \<open>
  \<^verbatim>\<open>LocalFaces<DD>\<close> (LocalFaces.h, not among the sources): the faces, the parallel
  vector of contiguous global ids and the ragged table of shared ranks (flat entries and
  displacements), section 4.6 of the spec.
\<close>

record LocalFaces =
  faces :: "simplex list"
  contiguousGIDs :: "nat list"
  sharedRanks :: "nat list"
  sharedRanksDispls :: "nat list"

text \<open>\<^verbatim>\<open>MPI_Scan\<close> with \<^verbatim>\<open>MPI_SUM\<close>: rank \<open>r\<close> receives the sum of the values of the
  ranks \<open>0, \<dots>, r\<close>.\<close>

definition mpiScan :: "nat list \<Rightarrow> nat \<Rightarrow> nat" where
  "mpiScan xs r = sum_list (take (Suc r) xs)"

text \<open>The entry of dimension \<open>D\<close> of \<^verbatim>\<open>getAllLocalFaces\<close> (lines 194-201 and 204-205).\<close>

definition elementLocalFaces ::
  "(simplex \<Rightarrow> nat) \<Rightarrow> (nat \<Rightarrow> nat) option \<Rightarrow> nat \<Rightarrow> 'd GlobalSimplexMesh list \<Rightarrow> nat
     \<Rightarrow> error + LocalFaces list" where
  "elementLocalFaces H v2r D mesh overlap =
     thenE (getGhostElements H v2r D (map elems mesh) overlap) (\<lambda>(elemsCopy, log).
       Inr (map (\<lambda>r. let ownedSize = numElements (mesh ! r);
                          gidOffset = mpiScan (map numElements mesh) r - ownedSize
                      in \<lparr>faces = elemsCopy ! r,
                          contiguousGIDs = [gidOffset..<gidOffset + numElements (mesh ! r)],
                          sharedRanks = [], sharedRanksDispls = []\<rparr>)
              [0..<length mesh]))"


subsection \<open>Faces of lower dimension\<close>

text \<open>
  Modelled from the spec: \<^verbatim>\<open>AllToAllV::getSDispls\<close>, \<^verbatim>\<open>getRDispls\<close> and the class
  \<^verbatim>\<open>Displacements\<close> are not among the sources. Section 4.3: the displacement iterators
  yield the pairs of peer rank and index in the buffer, in the order of the buffer; the
  displacements of a vector of counts are its prefix sums.
\<close>

definition getSDispls :: "AllToAllV \<Rightarrow> (nat \<times> nat) list" where
  "getSDispls a =
     (let peers = concat (map (\<lambda>p. replicate (sendcounts a ! p) p) [0..<length (sendcounts a)])
      in zip peers [0..<length peers])"

definition getRDispls :: "AllToAllV \<Rightarrow> (nat \<times> nat) list" where
  "getRDispls a =
     (let peers = concat (map (\<lambda>p. replicate (recvcounts a ! p) p) [0..<length (recvcounts a)])
      in zip peers [0..<length peers])"

definition Displacements :: "nat list \<Rightarrow> nat list" where
  "Displacements counts = map (\<lambda>j. sum_list (take j counts)) [0..<Suc (length counts)]"

text \<open>
  \<^verbatim>\<open>getContiguousGIDs\<close>. For \<open>DD = 0\<close> the id of a vertex is the vertex id itself. For
  \<open>DD > 0\<close> the keys of the \<^verbatim>\<open>std::map\<close> are the distinct requested faces in ascending
  order; they are numbered from the offset of the rank, which is the inclusive scan of the
  sizes minus the own size. The ids are sent back to the requesters.
\<close>

definition indexOf :: "'a list \<Rightarrow> 'a \<Rightarrow> nat" where
  "indexOf xs x = length (takeWhile (\<lambda>y. y \<noteq> x) xs)"

definition scanGID :: "simplex list list \<Rightarrow> nat \<Rightarrow> simplex \<Rightarrow> nat" where
  "scanGID requestedFaces rank face =
     (let ownedFacesToCGID = map (\<lambda>req. sort (remdups req)) requestedFaces;
          ownedSize = map length ownedFacesToCGID;
          gidOffset = mpiScan ownedSize rank - ownedSize ! rank
      in gidOffset + indexOf (ownedFacesToCGID ! rank) face)"

definition getContiguousGIDs :: "nat \<Rightarrow> simplex list list \<Rightarrow> AllToAllV list \<Rightarrow> nat list list" where
  "getContiguousGIDs DD requestedFaces a2a =
     exchange a2a
       (if DD = 0 then map (map (\<lambda>face. face ! 0)) requestedFaces
        else map (\<lambda>rank. map (scanGID requestedFaces rank) (requestedFaces ! rank))
               [0..<length requestedFaces])"

text \<open>
  \<^verbatim>\<open>getSharedRanks\<close>. For every requested face the owner lists the peers that sent it
  (\<^verbatim>\<open>sharedRanksInfo\<close>), in the order of the send displacements of the swapped exchange.
  The lengths of the lists are sent back with the face exchange, the lists themselves with
  a second exchange whose send and receive counts are summed per peer on each side.
\<close>

definition sharedRanksInfo :: "simplex list \<Rightarrow> (nat \<times> nat) list \<Rightarrow> simplex \<Rightarrow> nat list" where
  "sharedRanksInfo requestedFaces sDispls face =
     map fst (filter (\<lambda>(p, i). requestedFaces ! i = face) sDispls)"

definition getSharedRanks :: "simplex list list \<Rightarrow> AllToAllV list \<Rightarrow> (nat list \<times> nat list) list" where
  "getSharedRanks requestedFaces a2a =
     (let procs = length a2a;
          sharedRanksSendCount =
            map (\<lambda>r. map (\<lambda>face. length (sharedRanksInfo (requestedFaces ! r) (getSDispls (a2a ! r)) face))
                        (requestedFaces ! r)) [0..<procs];
          sharedRanksRecvCount = exchange a2a sharedRanksSendCount;
          requestedSharedRanks =
            map (\<lambda>r. concat (map (sharedRanksInfo (requestedFaces ! r) (getSDispls (a2a ! r)))
                                (requestedFaces ! r))) [0..<procs];
          a2aSharedRanks =
            map (\<lambda>r. \<lparr>sendcounts = map (\<lambda>p. sum_list (map (\<lambda>(q, i). sharedRanksSendCount ! r ! i)
                                           (filter (\<lambda>(q, i). q = p) (getSDispls (a2a ! r))))) [0..<procs],
                        recvcounts = map (\<lambda>p. sum_list (map (\<lambda>(q, i). sharedRanksRecvCount ! r ! i)
                                           (filter (\<lambda>(q, i). q = p) (getRDispls (a2a ! r))))) [0..<procs]\<rparr>)
              [0..<procs];
          sharedRanks = exchange a2aSharedRanks requestedSharedRanks
      in map (\<lambda>r. (sharedRanks ! r, Displacements (sharedRanksRecvCount ! r))) [0..<procs])"

text \<open>
  \<^verbatim>\<open>getFaces<DD>\<close>. A \<^verbatim>\<open>std::set\<close> is iterated in ascending order, so the faces for
  one owner are the sorted list of the distinct faces. Writing to \<^verbatim>\<open>requiredFaces\<close> at
  an owner outside \<open>[0, procs)\<close> is \<open>OutOfRange\<close>. The attachment of vertex data and of
  boundary mesh data (lines 440-466) changes neither the faces, nor the ids, nor the
  shared ranks and is left out, and with it the assertion of \<^verbatim>\<open>getVertexLID\<close> (line 402)
  that a requested vertex lies in the range of its owner, which is checked only when vertex
  data is attached.
\<close>

definition requiredFaces :: "(simplex \<Rightarrow> nat) \<Rightarrow> nat \<Rightarrow> simplex list \<Rightarrow> nat \<Rightarrow> simplex list" where
  "requiredFaces plex2rank DD els p =
     sort (remdups (filter (\<lambda>s. plex2rank s = p) (concat (map (downward DD) els))))"

definition getFaces ::
  "(simplex \<Rightarrow> nat) \<Rightarrow> (nat \<Rightarrow> nat) option \<Rightarrow> nat \<Rightarrow> simplex list list \<Rightarrow> error + LocalFaces list" where
  "getFaces H v2r DD elsAll =
     (let procs = length elsAll;
          plex2rank = getPlex2Rank H v2r procs DD
      in if list_ex (\<lambda>els. list_ex (\<lambda>s. procs \<le> plex2rank s) (concat (map (downward DD) els))) elsAll
         then Inl OutOfRange
         else
           let required = map (\<lambda>els. map (requiredFaces plex2rank DD els) [0..<procs]) elsAll;
               counts = map (map length) required;
               facesAll = map concat required;
               a2a = AllToAllV_send counts;
               requestedFaces = exchange a2a facesAll;
               cGIDs = getContiguousGIDs DD requestedFaces (swap_a2a a2a);
               shared = getSharedRanks requestedFaces (swap_a2a a2a)
           in Inr (map (\<lambda>r. \<lparr>faces = facesAll ! r, contiguousGIDs = cGIDs ! r,
                              sharedRanks = fst (shared ! r), sharedRanksDispls = snd (shared ! r)\<rparr>)
                     [0..<procs]))"

text \<open>Reading the ragged table: the shared ranks of the j-th face, and of a face.\<close>

definition sharedRanksAt :: "LocalFaces \<Rightarrow> nat \<Rightarrow> nat list" where
  "sharedRanksAt lf j =
     take (sharedRanksDispls lf ! Suc j - sharedRanksDispls lf ! j)
       (drop (sharedRanksDispls lf ! j) (sharedRanks lf))"

definition sharedRanksOf :: "LocalFaces \<Rightarrow> simplex \<Rightarrow> nat list" where
  "sharedRanksOf lf face =
     (if List.member (faces lf) face then sharedRanksAt lf (indexOf (faces lf) face) else [])"

subsection \<open>Auxiliary notions for the statements\<close>

definition groups :: "int list \<Rightarrow> nat list \<Rightarrow> nat \<Rightarrow> nat list list" where
  "groups part enumeration procs = fst (sendLoop part enumeration [0..<procs])"

definition pieces :: "nat \<Rightarrow> int list list \<Rightarrow> nat list list \<Rightarrow> 'a list list \<Rightarrow> 'a list list list" where
  "pieces n parts enums bufs =
     map (\<lambda>p. map (map (\<lambda>i. bufs ! p ! i)) (groups (parts ! p) (enums ! p) n)) [0..<n]"

definition hashPlaced :: "(simplex \<Rightarrow> nat) \<Rightarrow> 'd GlobalSimplexMesh list \<Rightarrow> bool" where
  "hashPlaced H mesh \<longleftrightarrow>
     list_all (\<lambda>r. list_all (\<lambda>e. H e mod length mesh = r) (elems (mesh ! r))) [0..<length mesh]"

definition flagInv :: "(simplex \<Rightarrow> nat) \<Rightarrow> 'd GlobalSimplexMesh list \<Rightarrow> bool" where
  "flagInv H mesh \<longleftrightarrow>
     list_all (\<lambda>r. isPartitionedByHash (mesh ! r) \<longrightarrow>
                    list_all (\<lambda>e. H e mod length mesh = r) (elems (mesh ! r))) [0..<length mesh]"

definition spmd :: "'d GlobalSimplexMesh list \<Rightarrow> bool" where
  "spmd mesh \<longleftrightarrow>
     (list_all isPartitionedByHash mesh \<or> \<not> list_ex isPartitionedByHash mesh) \<and>
     (list_all (\<lambda>m. elementData m = None) mesh \<or> \<not> list_ex (\<lambda>m. elementData m = None) mesh)"

definition dataOK :: "'d GlobalSimplexMesh \<Rightarrow> bool" where
  "dataOK m = (case elementData m of None \<Rightarrow> True | Some rows \<Rightarrow> length rows = length (elems m))"

definition attachedRows :: "'d GlobalSimplexMesh \<Rightarrow> (simplex \<times> 'd) list" where
  "attachedRows m = (case elementData m of None \<Rightarrow> [] | Some rows \<Rightarrow> zip (elems m) rows)"

definition globalElements :: "'d GlobalSimplexMesh list \<Rightarrow> simplex multiset" where
  "globalElements mesh = mset (concat (map elems mesh))"

definition globalRows :: "'d GlobalSimplexMesh list \<Rightarrow> (simplex \<times> 'd) multiset" where
  "globalRows mesh = mset (concat (map attachedRows mesh))"

text \<open>A mesh of three triangles on two ranks with one data row per triangle, used to
  run the operations on a concrete input.\<close>

definition twoRankMesh :: "string GlobalSimplexMesh list" where
  "twoRankMesh =
     [GlobalSimplexMesh_new [[0, 1, 2], [1, 2, 3]] (Some [''a'', ''b'']),
      GlobalSimplexMesh_new [[2, 3, 4]] (Some [''c''])]"

text \<open>The input is manifold: no face of dimension \<open>D - 1\<close> has more than two witnessing
  elements over all ranks.\<close>

definition manifold :: "nat \<Rightarrow> simplex list list \<Rightarrow> bool" where
  "manifold D els =
     (let fs = concat (map (downward (D - 1)) (concat els))
      in list_all (\<lambda>f. count_list fs f \<le> 2) fs)"

text \<open>Two triangles that share the edge \<open>[0, 1]\<close>, one on each of two ranks, and a
  strip of four triangles, two on each of two ranks.\<close>

definition twoTriangles :: "unit GlobalSimplexMesh list" where
  "twoTriangles = [GlobalSimplexMesh_new [[0, 1, 2]] None, GlobalSimplexMesh_new [[0, 1, 3]] None]"

definition stripMesh :: "unit GlobalSimplexMesh list" where
  "stripMesh = [GlobalSimplexMesh_new [[0, 1, 2], [1, 2, 3]] None,
                GlobalSimplexMesh_new [[2, 3, 4], [3, 4, 5]] None]"

text \<open>
  What every rank requires from every owner, what every owner is asked for (the result of
  the exchange of line 436), and the id that \<^verbatim>\<open>getContiguousGIDs\<close> computes for a face on
  its owner.
\<close>

definition requiredAll ::
  "(simplex \<Rightarrow> nat) \<Rightarrow> (nat \<Rightarrow> nat) option \<Rightarrow> nat \<Rightarrow> simplex list list \<Rightarrow> simplex list list list" where
  "requiredAll H v2r DD elsAll =
     map (\<lambda>els. map (requiredFaces (getPlex2Rank H v2r (length elsAll) DD) DD els)
                  [0..<length elsAll]) elsAll"

definition requestedAll ::
  "(simplex \<Rightarrow> nat) \<Rightarrow> (nat \<Rightarrow> nat) option \<Rightarrow> nat \<Rightarrow> simplex list list \<Rightarrow> simplex list list" where
  "requestedAll H v2r DD elsAll =
     map (\<lambda>w. concat (map (\<lambda>r. requiredAll H v2r DD elsAll ! r ! w) [0..<length elsAll]))
       [0..<length elsAll]"

definition faceGID ::
  "(simplex \<Rightarrow> nat) \<Rightarrow> (nat \<Rightarrow> nat) option \<Rightarrow> nat \<Rightarrow> simplex list list \<Rightarrow> simplex \<Rightarrow> nat" where
  "faceGID H v2r DD elsAll face =
     (if DD = 0 then face ! 0
      else scanGID (requestedAll H v2r DD elsAll) (getPlex2Rank H v2r (length elsAll) DD face) face)"

text \<open>
  The ranks that requested a face from owner \<open>w\<close>, the ranks that requested a face from
  its owner, and the exchange pattern of the replies (the swapped pattern of line 437).
\<close>

definition sharersAt ::
  "(simplex \<Rightarrow> nat) \<Rightarrow> (nat \<Rightarrow> nat) option \<Rightarrow> nat \<Rightarrow> simplex list list \<Rightarrow> nat \<Rightarrow> simplex \<Rightarrow> nat list" where
  "sharersAt H v2r DD elsAll w face =
     filter (\<lambda>q. face \<in> set (requiredAll H v2r DD elsAll ! q ! w)) [0..<length elsAll]"

definition sharers ::
  "(simplex \<Rightarrow> nat) \<Rightarrow> (nat \<Rightarrow> nat) option \<Rightarrow> nat \<Rightarrow> simplex list list \<Rightarrow> simplex \<Rightarrow> nat list" where
  "sharers H v2r DD elsAll face =
     sharersAt H v2r DD elsAll (getPlex2Rank H v2r (length elsAll) DD face) face"

definition replyPattern ::
  "(simplex \<Rightarrow> nat) \<Rightarrow> (nat \<Rightarrow> nat) option \<Rightarrow> nat \<Rightarrow> simplex list list \<Rightarrow> AllToAllV list" where
  "replyPattern H v2r DD elsAll =
     swap_a2a (AllToAllV_send (map (map length) (requiredAll H v2r DD elsAll)))"

text \<open>What owner \<open>w\<close> sends to rank \<open>p\<close> in the second exchange.\<close>

definition sharedPiece ::
  "(simplex \<Rightarrow> nat) \<Rightarrow> (nat \<Rightarrow> nat) option \<Rightarrow> nat \<Rightarrow> simplex list list \<Rightarrow> nat \<Rightarrow> nat \<Rightarrow> nat list" where
  "sharedPiece H v2r DD elsAll w p =
     concat (map (sharersAt H v2r DD elsAll w) (requiredAll H v2r DD elsAll ! p ! w))"

section \<open>Properties\<close>

subsection \<open>Exchange and the send loop\<close>

lemma collect_map_Inr: "collect (map Inr ys) = Inr ys"
  by (induction ys) auto

lemma collect_InrD: "collect xs = Inr ys \<Longrightarrow> xs = map Inr ys"
proof (induction xs arbitrary: ys rule: collect.induct)
  case 1
  then show ?case by simp
next
  case (2 e xs)
  then show ?case by simp
next
  case (3 x xs)
  then show ?case by (auto split: sum.splits)
qed

lemma collect_Inr: "collect xs = Inr ys \<longleftrightarrow> xs = map Inr ys"
  using collect_map_Inr collect_InrD by blast

lemma chunk_concat:
  "i < length xss \<Longrightarrow> chunk (map length xss) (concat xss) i = xss ! i"
proof (induction xss arbitrary: i)
  case Nil
  then show ?case by simp
next
  case (Cons xs xss)
  show ?case
  proof (cases i)
    case 0
    then show ?thesis by (simp add: chunk_def displs_def)
  next
    case (Suc j)
    with Cons.prems have "j < length xss" by simp
    from Cons.IH[OF this] show ?thesis using Suc
      by (simp add: chunk_def displs_def)
  qed
qed

lemma sendLoop_concat:
  "sendLoop part eIt ps = (gs, rest) \<Longrightarrow> concat gs @ rest = eIt \<and> length gs = length ps"
proof (induction ps arbitrary: eIt gs rest)
  case Nil
  then show ?case by simp
next
  case (Cons p ps)
  then show ?case
    by (auto split: prod.splits)
qed

lemma dropWhile_sorted_le:
  "sorted (map f xs) \<Longrightarrow> x \<in> set (dropWhile (\<lambda>i. f i \<le> (c::int)) xs) \<Longrightarrow> \<not> f x \<le> c"
  by (induction xs) (auto split: if_splits)

lemma sorted_map_dropWhile: "sorted (map f xs) \<Longrightarrow> sorted (map f (dropWhile P xs))"
  by (induction xs) auto

lemma sendLoop_upper:
  "sendLoop part eIt ps = (gs, rest) \<Longrightarrow> k < length ps \<Longrightarrow> i \<in> set (gs ! k)
     \<Longrightarrow> part ! i \<le> int (ps ! k)"
proof (induction ps arbitrary: eIt gs rest k)
  case Nil
  then show ?case by simp
next
  case (Cons p ps)
  then show ?case
    by (cases k) (auto split: prod.splits dest: set_takeWhileD)
qed

lemma sendLoop_lower:
  "sendLoop part eIt ps = (gs, rest) \<Longrightarrow> k < length ps \<Longrightarrow> i \<in> set (gs ! k)
     \<Longrightarrow> \<forall>j\<in>set eIt. c < part ! j \<Longrightarrow> c < part ! i"
proof (induction ps arbitrary: eIt gs rest k)
  case Nil
  then show ?case by simp
next
  case (Cons p ps)
  show ?case
  proof (cases k)
    case 0
    with Cons.prems have "i \<in> set (takeWhile (\<lambda>i. part ! i \<le> int p) eIt)"
      by (auto split: prod.splits)
    then have "i \<in> set eIt" by (rule set_takeWhileD[THEN conjunct1])
    with Cons.prems(4) show ?thesis by blast
  next
    case (Suc k')
    obtain gs' rest' where r: "sendLoop part (dropWhile (\<lambda>i. part ! i \<le> int p) eIt) ps = (gs', rest')"
      by (cases "sendLoop part (dropWhile (\<lambda>i. part ! i \<le> int p) eIt) ps") 
    with Cons.prems Suc have g: "gs = takeWhile (\<lambda>i. part ! i \<le> int p) eIt # gs'" by simp
    have "\<forall>j\<in>set (dropWhile (\<lambda>i. part ! i \<le> int p) eIt). c < part ! j"
      using Cons.prems(4) by (meson set_dropWhileD)
    from Cons.IH[OF r _ _ this, of k'] Cons.prems Suc g show ?thesis by simp
  qed
qed

lemma length_groups: "length (groups part enum n) = n"
  using sendLoop_concat[of part enum "[0..<n]"]
  by (cases "sendLoop part enum [0..<n]") (simp add: groups_def)

lemma packElems_Inr:
  "packElems n part enum els = Inr pk \<longleftrightarrow>
     length part = length els \<and> snd (sendLoop part enum [0..<n]) = [] \<and>
     pk = (map length (groups part enum n), map (\<lambda>i. els ! i) (concat (groups part enum n)))"
  by (cases "sendLoop part enum [0..<n]") (auto simp: packElems_def groups_def)

lemma concat_groups:
  "snd (sendLoop part enum [0..<n]) = [] \<Longrightarrow> concat (groups part enum n) = enum"
  using sendLoop_concat[of part enum "[0..<n]"]
  by (cases "sendLoop part enum [0..<n]") (simp add: groups_def)

lemma exchange_length: "length (exchange a2a bufs) = length a2a"
  by (simp add: exchange_def)

lemma AllToAllV_send_length: "length (AllToAllV_send sc) = length sc"
  by (simp add: AllToAllV_send_def)

lemma exchange_pieces:
  assumes "length Mss = n" and "\<forall>p<n. length (Mss ! p) = n" and "r < n"
  shows "exchange (AllToAllV_send (map (map length) Mss)) (map concat Mss) ! r
           = concat (map (\<lambda>p. Mss ! p ! r) [0..<n])"
proof -
  have "take (recvcounts (AllToAllV_send (map (map length) Mss) ! r) ! p)
          (chunk (sendcounts (AllToAllV_send (map (map length) Mss) ! p)) (map concat Mss ! p) r)
        = Mss ! p ! r" if "p < n" for p
  proof -
    have "chunk (map length (Mss ! p)) (concat (Mss ! p)) r = Mss ! p ! r"
      using assms that by (intro chunk_concat) simp
    then show ?thesis using assms that by (simp add: AllToAllV_send_def)
  qed
  then have "\<forall>p<n. take (recvcounts (AllToAllV_send (map (map length) Mss) ! r) ! p)
          (chunk (sendcounts (AllToAllV_send (map (map length) Mss) ! p)) (map concat Mss ! p) r)
        = Mss ! p ! r" by blast
  with assms show ?thesis
    unfolding exchange_def AllToAllV_send_length
    by (auto intro!: arg_cong[where f = concat])
qed

lemma pieces_props:
  "length (pieces n parts enums bufs) = n"
  "p < n \<Longrightarrow> length (pieces n parts enums bufs ! p) = n"
  "map (map length) (pieces n parts enums bufs) = map (map length) (pieces n parts enums bufs')"
  by (simp_all add: pieces_def length_groups comp_def)

lemma packs_shape:
  assumes "collect (map (\<lambda>r. packElems n (parts ! r) (enums ! r) (elems (mesh ! r))) [0..<n]) = Inr packs"
    and "n = length mesh"
  shows "map fst packs = map (map length) (pieces n parts enums (map elems mesh))"
    and "map snd packs = map concat (pieces n parts enums (map elems mesh))"
    and "\<forall>p<n. length (parts ! p) = length (elems (mesh ! p)) \<and>
           snd (sendLoop (parts ! p) (enums ! p) [0..<n]) = []"
proof -
  from assms(1) have eq: "map (\<lambda>r. packElems n (parts ! r) (enums ! r) (elems (mesh ! r))) [0..<n]
                     = map Inr packs"
    by (rule collect_InrD)
  from arg_cong[OF eq, of length] have len: "length packs = n"
    by simp
  have pk: "packElems n (parts ! p) (enums ! p) (elems (mesh ! p)) = Inr (packs ! p)" if "p < n" for p
    using arg_cong[OF eq, of "\<lambda>xs. xs ! p"] that len by simp
  have sh: "packs ! p = (map length (groups (parts ! p) (enums ! p) n),
                        map (\<lambda>i. elems (mesh ! p) ! i) (concat (groups (parts ! p) (enums ! p) n)))"
    and as: "length (parts ! p) = length (elems (mesh ! p))"
            "snd (sendLoop (parts ! p) (enums ! p) [0..<n]) = []" if "p < n" for p
    using pk[OF that] unfolding packElems_Inr by blast+
  show "map fst packs = map (map length) (pieces n parts enums (map elems mesh))"
  proof (rule nth_equalityI)
    show "length (map fst packs) = length (map (map length) (pieces n parts enums (map elems mesh)))"
      using len by (simp add: pieces_def)
    fix p assume "p < length (map fst packs)"
    then have p: "p < n" using len by simp
    show "map fst packs ! p = map (map length) (pieces n parts enums (map elems mesh)) ! p"
      using p len sh[OF p] by (simp add: pieces_def comp_def)
  qed
  show "map snd packs = map concat (pieces n parts enums (map elems mesh))"
  proof (rule nth_equalityI)
    show "length (map snd packs) = length (map concat (pieces n parts enums (map elems mesh)))"
      using len by (simp add: pieces_def)
    fix p assume "p < length (map snd packs)"
    then have p: "p < n" using len by simp
    show "map snd packs ! p = map concat (pieces n parts enums (map elems mesh)) ! p"
      using p len sh[OF p] assms(2) by (simp add: pieces_def map_concat)
  qed
  show "\<forall>p<n. length (parts ! p) = length (elems (mesh ! p)) \<and>
           snd (sendLoop (parts ! p) (enums ! p) [0..<n]) = []"
    using as by blast
qed

lemma doPartition_Inr:
  assumes "doPartition enums parts mesh = Inr mesh'"
  shows "length mesh' = length mesh"
    and "r < length mesh \<Longrightarrow>
           elems (mesh' ! r) = concat (map (\<lambda>p. pieces (length mesh) parts enums (map elems mesh) ! p ! r)
                                        [0..<length mesh])"
    and "r < length mesh \<Longrightarrow> isPartitionedByHash (mesh' ! r) = isPartitionedByHash (mesh ! r)"
    and "\<forall>p<length mesh. length (parts ! p) = length (elems (mesh ! p)) \<and>
           snd (sendLoop (parts ! p) (enums ! p) [0..<length mesh]) = []"
proof -
  let ?n = "length mesh"
  from assms obtain packs where
    c: "collect (map (\<lambda>r. packElems ?n (parts ! r) (enums ! r) (elems (mesh ! r))) [0..<?n]) = Inr packs"
    by (auto simp: doPartition_def Let_def split: sum.splits)
  note sh = packs_shape[OF c refl]
  let ?P = "pieces ?n parts enums (map elems mesh)"
  have ex: "exchange (AllToAllV_send (map fst packs)) (map snd packs) ! r
              = concat (map (\<lambda>p. ?P ! p ! r) [0..<?n])" if "r < ?n" for r
    unfolding sh(1,2) using that by (intro exchange_pieces) (simp_all add: pieces_props)
  from assms c show "length mesh' = length mesh"
    by (auto simp: doPartition_def Let_def split: if_splits)
  from assms c ex show "r < length mesh \<Longrightarrow>
           elems (mesh' ! r) = concat (map (\<lambda>p. ?P ! p ! r) [0..<?n])"
    by (auto simp: doPartition_def Let_def split: if_splits)
  from assms c show "r < length mesh \<Longrightarrow> isPartitionedByHash (mesh' ! r) = isPartitionedByHash (mesh ! r)"
    by (auto simp: doPartition_def Let_def split: if_splits)
  from sh(3) show "\<forall>p<length mesh. length (parts ! p) = length (elems (mesh ! p)) \<and>
           snd (sendLoop (parts ! p) (enums ! p) [0..<length mesh]) = []" .
qed

lemma in_concat_nth: "k < length xss \<Longrightarrow> x \<in> set (xss ! k) \<Longrightarrow> x \<in> set (concat xss)"
  using nth_mem by fastforce

lemma sendLoop_lower_sorted:
  "sorted (map (\<lambda>i. part ! i) eIt) \<Longrightarrow> sendLoop part eIt ps = (gs, rest) \<Longrightarrow> Suc k < length ps
     \<Longrightarrow> i \<in> set (gs ! Suc k) \<Longrightarrow> \<not> part ! i \<le> int (ps ! k)"
proof (induction ps arbitrary: eIt gs k)
  case Nil
  then show ?case by simp
next
  case (Cons p ps)
  let ?dw = "dropWhile (\<lambda>i. part ! i \<le> int p) eIt"
  obtain gs' where r: "sendLoop part ?dw ps = (gs', rest)"
    and g: "gs = takeWhile (\<lambda>i. part ! i \<le> int p) eIt # gs'"
    using Cons.prems(2) by (auto split: prod.splits)
  have srt: "sorted (map (\<lambda>i. part ! i) ?dw)"
    using Cons.prems(1) by (rule sorted_map_dropWhile)
  show ?case
  proof (cases k)
    case 0
    from sendLoop_concat[OF r] have c: "concat gs' @ rest = ?dw" and l: "length gs' = length ps"
      by simp_all
    from Cons.prems(3,4) g 0 l have "i \<in> set (concat gs')"
      by (intro in_concat_nth[of 0]) simp_all
    then have "i \<in> set ?dw" using c by (metis Un_iff set_append)
    from dropWhile_sorted_le[OF Cons.prems(1) this] 0 show ?thesis by simp
  next
    case (Suc k')
    from Cons.IH[OF srt r, of k'] Cons.prems(3,4) g Suc show ?thesis by simp
  qed
qed

lemma groups_subset:
  assumes "r < n" and "i \<in> set (groups part enum n ! r)"
  shows "i \<in> set enum"
proof -
  obtain gs rest where s: "sendLoop part enum [0..<n] = (gs, rest)"
    by (cases "sendLoop part enum [0..<n]")
  from sendLoop_concat[OF s] have c: "concat gs @ rest = enum" and l: "length gs = n" by simp_all
  from assms s l have "i \<in> set (concat gs)"
    by (intro in_concat_nth[of r]) (simp_all add: groups_def)
  with c show ?thesis by (metis Un_iff set_append)
qed

lemma groups_target:
  assumes "std_sort_post part enum" and "r < n" and "i \<in> set (groups part enum n ! r)"
    and "0 \<le> part ! i"
  shows "part ! i = int r" and "i < length part"
proof -
  obtain gs rest where s: "sendLoop part enum [0..<n] = (gs, rest)"
    by (cases "sendLoop part enum [0..<n]")
  then have g: "groups part enum n = gs" by (simp add: groups_def)
  from assms(1) have srt: "sorted (map (\<lambda>i. part ! i) enum)" by (simp add: std_sort_post_def)
  from sendLoop_upper[OF s, of r i] assms g have up: "part ! i \<le> int r" by simp
  have lo: "int r \<le> part ! i"
  proof (cases r)
    case 0
    with assms(4) show ?thesis by simp
  next
    case (Suc k)
    from sendLoop_lower_sorted[OF srt s, of k i] assms g Suc show ?thesis by simp
  qed
  from up lo show "part ! i = int r" by simp
  from assms(1) have "set enum = {0..<length part}"
    by (metis std_sort_post_def set_sort set_upt)
  with groups_subset[OF assms(2,3)] show "i < length part" by simp
qed

lemma hashed_doPartition:
  assumes "0 < D"
    and "\<forall>r<length mesh. std_sort_post (hashPartition H v2r (length mesh) D (elems (mesh ! r))) (enums ! r)"
    and "doPartition enums (map (\<lambda>m. hashPartition H v2r (length mesh) D (elems m)) mesh) mesh = Inr m'"
    and "r < length mesh" and "e \<in> set (elems (m' ! r))"
  shows "H e mod length mesh = r"
proof -
  let ?n = "length mesh"
  let ?parts = "map (\<lambda>m. hashPartition H v2r ?n D (elems m)) mesh"
  from doPartition_Inr(2)[OF assms(3,4)] assms(5)
  obtain p where p: "p < ?n" and "e \<in> set (pieces ?n ?parts enums (map elems mesh) ! p ! r)"
    by auto
  then obtain i where i: "i \<in> set (groups (?parts ! p) (enums ! p) ?n ! r)"
    and e: "e = elems (mesh ! p) ! i"
    using assms(4) by (auto simp: pieces_def length_groups)
  let ?part = "hashPartition H v2r ?n D (elems (mesh ! p))"
  have pp: "?parts ! p = ?part" using p by simp
  have sp: "std_sort_post ?part (enums ! p)" using assms(2) p by simp
  have il: "i < length ?part"
    using groups_subset[OF assms(4) i] sp unfolding pp std_sort_post_def
    by (metis atLeastLessThan_iff set_sort set_upt)
  then have nn: "0 \<le> ?part ! i" by (simp add: hashPartition_def)
  from groups_target(1)[OF sp assms(4) _ nn] i pp have "?part ! i = int r" by simp
  with il e assms(1) show ?thesis
    by (simp add: hashPartition_def getPlex2Rank_def)
qed

lemma sendLoop_rest_empty:
  "ps \<noteq> [] \<Longrightarrow> \<forall>i\<in>set eIt. part ! i \<le> int (last ps) \<Longrightarrow> snd (sendLoop part eIt ps) = []"
proof (induction ps arbitrary: eIt)
  case Nil
  then show ?case by simp
next
  case (Cons p ps)
  show ?case
  proof (cases "ps = []")
    case True
    with Cons.prems show ?thesis by (simp add: dropWhile_eq_Nil_conv)
  next
    case False
    have "\<forall>i\<in>set (dropWhile (\<lambda>i. part ! i \<le> int p) eIt). part ! i \<le> int (last ps)"
      using Cons.prems(2) False by (auto dest: set_dropWhileD)
    from Cons.IH[OF False this] show ?thesis by (auto split: prod.splits)
  qed
qed

lemma mset_pieces:
  assumes "length bufs = n"
    and "\<forall>p<n. snd (sendLoop (parts ! p) (enums ! p) [0..<n]) = [] \<and>
               mset (enums ! p) = mset [0..<length (bufs ! p)]"
  shows "mset (concat (map (\<lambda>r. concat (map (\<lambda>p. pieces n parts enums bufs ! p ! r) [0..<n])) [0..<n]))
           = mset (concat bufs)"
proof -
  let ?P = "pieces n parts enums bufs"
  have row: "(\<Sum>r = 0..<n. mset (?P ! p ! r)) = mset (bufs ! p)" if "p < n" for p
  proof -
    have "(\<Sum>r = 0..<n. mset (?P ! p ! r)) = mset (concat (map (\<lambda>r. ?P ! p ! r) [0..<n]))"
      by (simp add: mset_concat interv_sum_list_conv_sum_set_nat comp_def)
    also have "map (\<lambda>r. ?P ! p ! r) [0..<n] = ?P ! p"
      using that by (intro nth_equalityI) (simp_all add: pieces_props)
    also have "concat (?P ! p) = map (\<lambda>i. bufs ! p ! i) (enums ! p)"
      using that assms(2) by (simp add: pieces_def map_concat[symmetric] concat_groups)
    also have "mset \<dots> = image_mset (\<lambda>i. bufs ! p ! i) (mset (enums ! p))"
      by (simp only: mset_map)
    also have "\<dots> = image_mset (\<lambda>i. bufs ! p ! i) (mset [0..<length (bufs ! p)])"
      using that assms(2) by (simp only:)
    also have "\<dots> = mset (map (\<lambda>i. bufs ! p ! i) [0..<length (bufs ! p)])"
      by (simp only: mset_map)
    also have "\<dots> = mset (bufs ! p)"
      by (simp only: map_nth)
    finally show ?thesis .
  qed
  have "mset (concat (map (\<lambda>r. concat (map (\<lambda>p. ?P ! p ! r) [0..<n])) [0..<n]))
          = (\<Sum>r = 0..<n. \<Sum>p = 0..<n. mset (?P ! p ! r))"
    by (simp add: mset_concat interv_sum_list_conv_sum_set_nat comp_def)
  also have "\<dots> = (\<Sum>p = 0..<n. \<Sum>r = 0..<n. mset (?P ! p ! r))"
    by (rule sum.swap)
  also have "\<dots> = (\<Sum>p = 0..<n. mset (bufs ! p))"
    using row by simp
  also have "\<dots> = mset (concat (map (\<lambda>p. bufs ! p) [0..<n]))"
    by (simp add: mset_concat interv_sum_list_conv_sum_set_nat comp_def)
  also have "map (\<lambda>p. bufs ! p) [0..<n] = bufs"
    unfolding assms(1)[symmetric] by (rule map_nth)
  finally show ?thesis .
qed

lemma doPartition_data:
  assumes "doPartition enums parts mesh = Inr mesh'" and "r < length mesh"
  shows "elementData (mesh' ! r) =
           (if list_all (\<lambda>m. elementData m = None) mesh then None
            else Some (concat (map (\<lambda>p. pieces (length mesh) parts enums
                                            (map (\<lambda>m. the (elementData m)) mesh) ! p ! r)
                                 [0..<length mesh])))"
proof -
  let ?n = "length mesh"
  from assms obtain packs where
    c: "collect (map (\<lambda>r. packElems ?n (parts ! r) (enums ! r) (elems (mesh ! r))) [0..<?n]) = Inr packs"
    by (auto simp: doPartition_def Let_def split: sum.splits)
  note sh = packs_shape[OF c refl]
  let ?D = "map (\<lambda>m. the (elementData m)) mesh"
  let ?P = "pieces ?n parts enums ?D"
  have gr: "map (\<lambda>r. gatherRows (enums ! r) (the (elementData (mesh ! r)))) [0..<?n] = map concat ?P"
    using sh(3) by (auto intro!: nth_equalityI simp: pieces_def gatherRows_def concat_groups
        simp flip: map_concat)
  have "map fst packs = map (map length) ?P"
    unfolding sh(1) by (rule pieces_props(3))
  then have ex: "exchange (AllToAllV_send (map fst packs))
             (map (\<lambda>r. gatherRows (enums ! r) (the (elementData (mesh ! r)))) [0..<?n]) ! r
              = concat (map (\<lambda>p. ?P ! p ! r) [0..<?n])"
    unfolding gr using assms(2) by (simp add: exchange_pieces pieces_props)
  from assms c ex show "elementData (mesh' ! r) =
           (if list_all (\<lambda>m. elementData m = None) mesh then None
            else Some (concat (map (\<lambda>p. ?P ! p ! r) [0..<?n])))"
    by (auto simp: doPartition_def Let_def list_all_length split: if_splits)
qed

lemma doPartition_data_agree:
  "doPartition enums parts mesh = Inr mesh' \<Longrightarrow>
     list_all (\<lambda>m. elementData m = None) mesh \<or> \<not> list_ex (\<lambda>m. elementData m = None) mesh"
  by (auto simp: doPartition_def Let_def split: sum.splits if_splits)

lemma doPartition_returns:
  assumes "\<forall>p<length mesh. length (parts ! p) = length (elems (mesh ! p)) \<and>
             snd (sendLoop (parts ! p) (enums ! p) [0..<length mesh]) = []"
    and "list_all (\<lambda>m. elementData m = None) mesh \<or> \<not> list_ex (\<lambda>m. elementData m = None) mesh"
  shows "\<exists>mesh'. doPartition enums parts mesh = Inr mesh'"
proof -
  let ?n = "length mesh"
  let ?f = "\<lambda>p. (map length (groups (parts ! p) (enums ! p) ?n),
                  map (\<lambda>i. elems (mesh ! p) ! i) (concat (groups (parts ! p) (enums ! p) ?n)))"
  have "map (\<lambda>r. packElems ?n (parts ! r) (enums ! r) (elems (mesh ! r))) [0..<?n]
          = map Inr (map ?f [0..<?n])"
    using assms(1) by (auto simp: packElems_Inr)
  then have "collect (map (\<lambda>r. packElems ?n (parts ! r) (enums ! r) (elems (mesh ! r))) [0..<?n])
          = Inr (map ?f [0..<?n])"
    by (simp only: collect_map_Inr)
  with assms(2) show ?thesis
    by (auto simp: doPartition_def Let_def)
qed

subsection \<open>Repartitioning\<close>

lemma hash_rest_empty:
  assumes "0 < D" and "p < n"
    and "std_sort_post (hashPartition H v2r n D els) enum"
  shows "snd (sendLoop (hashPartition H v2r n D els) enum [0..<n]) = []"
proof -
  let ?part = "hashPartition H v2r n D els"
  from assms(3) have se: "set enum = {0..<length ?part}"
    by (metis std_sort_post_def set_sort set_upt)
  have "\<forall>i\<in>set enum. ?part ! i \<le> int (last [0..<n])"
  proof
    fix i assume "i \<in> set enum"
    with se have "i < length els" by (simp add: hashPartition_def)
    moreover have "H (els ! i) mod n < n" using assms(2) by simp
    ultimately show "?part ! i \<le> int (last [0..<n])"
      using assms(1,2) by (simp add: hashPartition_def getPlex2Rank_def last_upt)
  qed
  moreover have "[0..<n] \<noteq> []" using assms(2) by simp
  ultimately show ?thesis by (rule sendLoop_rest_empty[rotated])
qed

text \<open>
  C3. After \<^verbatim>\<open>repartitionByHash\<close> has returned, every element of the local element
  array of every rank \<open>r\<close> satisfies \<open>H e mod procs = r\<close>.
\<close>

theorem repartitionByHash_owner:
  assumes "0 < D" and "spmd mesh" and "flagInv H mesh"
    and "list_all2 std_sort_post
           (map (\<lambda>m. hashPartition H v2r (length mesh) D (elems m)) mesh) enums"
  shows "\<exists>mesh'. repartitionByHash H v2r D enums mesh = Inr mesh' \<and> length mesh' = length mesh \<and>
           hashPlaced H mesh'"
proof (cases "list_all isPartitionedByHash mesh")
  case True
  with assms(3) have "hashPlaced H mesh"
    by (auto simp: flagInv_def hashPlaced_def list_all_length)
  with True show ?thesis by (simp add: repartitionByHash_def)
next
  case False
  with assms(2) have nex: "\<not> list_ex isPartitionedByHash mesh" by (simp add: spmd_def)
  let ?n = "length mesh"
  let ?parts = "map (\<lambda>m. hashPartition H v2r ?n D (elems m)) mesh"
  from assms(4) have srt: "\<forall>r<?n. std_sort_post (hashPartition H v2r ?n D (elems (mesh ! r))) (enums ! r)"
    by (auto simp: list_all2_conv_all_nth)
  have "length (?parts ! p) = length (elems (mesh ! p)) \<and>
             snd (sendLoop (?parts ! p) (enums ! p) [0..<?n]) = []" if "p < ?n" for p
    using assms(1) srt that hash_rest_empty[OF assms(1) that, of H v2r "elems (mesh ! p)" "enums ! p"]
    by (simp add: hashPartition_def)
  moreover from assms(2) have "list_all (\<lambda>m. elementData m = None) mesh \<or>
      \<not> list_ex (\<lambda>m. elementData m = None) mesh" by (simp add: spmd_def)
  ultimately obtain m' where d: "doPartition enums ?parts mesh = Inr m'"
    using doPartition_returns[of mesh ?parts enums] by blast
  let ?m = "map (\<lambda>s. s\<lparr>isPartitionedByHash := True\<rparr>) m'"
  from d False nex have r: "repartitionByHash H v2r D enums mesh = Inr ?m"
    by (simp add: repartitionByHash_def)
  from doPartition_Inr(1)[OF d] have l: "length ?m = ?n" by simp
  have "H e mod ?n = r" if "r < ?n" "e \<in> set (elems (m' ! r))" for r e
    using hashed_doPartition[OF assms(1) srt d that] .
  then have "hashPlaced H ?m"
    using doPartition_Inr(1)[OF d]
    by (simp add: hashPlaced_def list_all_length)
  with r l show ?thesis by blast
qed

theorem repartitionByHash_owner_witness:
  "\<exists>mesh'. repartitionByHash sum_list None 2 [[1, 0], [0]] twoRankMesh = Inr mesh' \<and>
     length mesh' = length twoRankMesh \<and> hashPlaced sum_list mesh'"
proof (rule repartitionByHash_owner)
  show "0 < (2::nat)" by simp
  show "spmd twoRankMesh" by code_simp
  show "flagInv sum_list twoRankMesh" by code_simp
  show "list_all2 std_sort_post
          (map (\<lambda>m. hashPartition sum_list None (length twoRankMesh) 2 (elems m)) twoRankMesh)
          [[1, 0], [0]]"
    by code_simp
qed

text \<open>
  C4. \<^verbatim>\<open>repartitionByHash\<close> is idempotent: when the flag is set on every rank the call
  changes nothing, and a second call after a first one leaves the mesh (or the failure) of
  the first one.
\<close>

theorem repartitionByHash_idempotent:
  "(list_all isPartitionedByHash mesh \<longrightarrow> repartitionByHash H v2r D enums mesh = Inr mesh) \<and>
   (case repartitionByHash H v2r D enums mesh of
      Inl e \<Rightarrow> Inl e
    | Inr m \<Rightarrow> repartitionByHash H v2r D enums' m) = repartitionByHash H v2r D enums mesh"
proof
  show "list_all isPartitionedByHash mesh \<longrightarrow> repartitionByHash H v2r D enums mesh = Inr mesh"
    by (simp add: repartitionByHash_def)
  show "(case repartitionByHash H v2r D enums mesh of
      Inl e \<Rightarrow> Inl e
    | Inr m \<Rightarrow> repartitionByHash H v2r D enums' m) = repartitionByHash H v2r D enums mesh"
  proof (cases "repartitionByHash H v2r D enums mesh")
    case (Inl e)
    then show ?thesis by simp
  next
    case (Inr m)
    then have "list_all isPartitionedByHash m"
      by (auto simp: repartitionByHash_def list_all_length split: if_splits sum.splits)
    then have "repartitionByHash H v2r D enums' m = Inr m"
      by (simp add: repartitionByHash_def)
    with Inr show ?thesis by simp
  qed
qed

theorem repartitionByHash_idempotent_witness:
  "repartitionByHash sum_list None 2 [[1, 0], [0]] twoRankMesh =
     Inr [\<lparr>elems = [[1, 2, 3]], elementData = Some [''b''], isPartitionedByHash = True\<rparr>,
          \<lparr>elems = [[0, 1, 2], [2, 3, 4]], elementData = Some [''a'', ''c''],
             isPartitionedByHash = True\<rparr>] \<and>
   repartitionByHash sum_list None 2 [[0], [1, 0]]
     [\<lparr>elems = [[1, 2, 3]], elementData = Some [''b''], isPartitionedByHash = True\<rparr>,
      \<lparr>elems = [[0, 1, 2], [2, 3, 4]], elementData = Some [''a'', ''c''],
         isPartitionedByHash = True\<rparr>] =
     Inr [\<lparr>elems = [[1, 2, 3]], elementData = Some [''b''], isPartitionedByHash = True\<rparr>,
          \<lparr>elems = [[0, 1, 2], [2, 3, 4]], elementData = Some [''a'', ''c''],
             isPartitionedByHash = True\<rparr>]"
proof -
  have first: "repartitionByHash sum_list None 2 [[1, 0], [0]] twoRankMesh =
     Inr [\<lparr>elems = [[1, 2, 3]], elementData = Some [''b''], isPartitionedByHash = True\<rparr>,
          \<lparr>elems = [[0, 1, 2], [2, 3, 4]], elementData = Some [''a'', ''c''],
             isPartitionedByHash = True\<rparr>]"
    by code_simp
  from repartitionByHash_idempotent[of twoRankMesh sum_list None 2 "[[1, 0], [0]]" "[[0], [1, 0]]"]
  show ?thesis unfolding first by simp
qed

lemma zip_concat_map:
  "\<forall>x\<in>set xs. length (f x) = length (g x) \<Longrightarrow>
     zip (concat (map f xs)) (concat (map g xs)) = concat (map (\<lambda>x. zip (f x) (g x)) xs)"
  by (induction xs) simp_all

lemma zip_map_same: "zip (map f xs) (map g xs) = map (\<lambda>x. (f x, g x)) xs"
  by (induction xs) simp_all

lemma std_sort_post_mset:
  assumes "std_sort_post part enum"
  shows "mset enum = mset [0..<length part]"
proof -
  from assms have "sort enum = [0..<length part]" by (simp add: std_sort_post_def)
  from arg_cong[OF this, of mset] show ?thesis by simp
qed

lemma std_sort_post_set:
  assumes "std_sort_post part enum"
  shows "set enum = {0..<length part}"
proof -
  from assms have "sort enum = [0..<length part]" by (simp add: std_sort_post_def)
  from arg_cong[OF this, of set] show ?thesis by simp
qed

lemma map_nth_upt: "map (\<lambda>r. f (xs ! r)) [0..<length xs] = map f xs"
  by (rule nth_equalityI) simp_all

lemma mset_concat_nth:
  "length xs = n \<Longrightarrow> mset (concat (map f xs)) = mset (concat (map (\<lambda>r. f (xs ! r)) [0..<n]))"
  using map_nth_upt[of f xs] by simp

lemma doPartition_preserves:
  assumes d: "doPartition enums parts mesh = Inr mesh'"
    and srt: "\<forall>r<length mesh. std_sort_post (parts ! r) (enums ! r)"
    and ok: "\<forall>r<length mesh. dataOK (mesh ! r)"
  shows "globalElements mesh' = globalElements mesh"
    and "globalRows mesh' = globalRows mesh"
    and "\<forall>r<length mesh. dataOK (mesh' ! r)"
proof -
  let ?n = "length mesh"
  note I = doPartition_Inr[OF d]
  have len: "length mesh' = ?n" by (rule I(1))
  have perm: "mset (enums ! p) = mset [0..<length (elems (mesh ! p))]" if "p < ?n" for p
    using std_sort_post_mset[of "parts ! p" "enums ! p"] srt I(4) that by simp
  have inr: "i < length (elems (mesh ! p))"
    if "p < ?n" "r < ?n" "i \<in> set (groups (parts ! p) (enums ! p) ?n ! r)" for p r i
    using groups_subset[OF that(2,3)] std_sort_post_set[of "parts ! p" "enums ! p"] srt I(4) that(1)
    by simp
  let ?PE = "pieces ?n parts enums (map elems mesh)"
  have "globalElements mesh' = mset (concat (map (\<lambda>r. elems (mesh' ! r)) [0..<?n]))"
    unfolding globalElements_def using len by (rule mset_concat_nth)
  also have "map (\<lambda>r. elems (mesh' ! r)) [0..<?n]
               = map (\<lambda>r. concat (map (\<lambda>p. ?PE ! p ! r) [0..<?n])) [0..<?n]"
    using I(2) by simp
  also have "mset (concat \<dots>) = mset (concat (map elems mesh))"
    using I(4) perm by (intro mset_pieces) simp_all
  finally show "globalElements mesh' = globalElements mesh"
    by (simp add: globalElements_def)
  show "globalRows mesh' = globalRows mesh"
  proof (cases "list_all (\<lambda>m. elementData m = None) mesh")
    case True
    then have "\<forall>r<?n. elementData (mesh' ! r) = None"
      using doPartition_data[OF d] by simp
    then have "concat (map attachedRows mesh') = []"
      using len by (auto simp: attachedRows_def in_set_conv_nth)
    moreover have "concat (map attachedRows mesh) = []"
      using True by (auto simp: attachedRows_def list_all_iff)
    ultimately show ?thesis by (simp only: globalRows_def)
  next
    case False
    with doPartition_data_agree[OF d] have allS: "\<forall>m\<in>set mesh. elementData m \<noteq> None"
      by (auto simp: list_ex_iff)
    let ?D = "map (\<lambda>m. the (elementData m)) mesh"
    let ?PD = "pieces ?n parts enums ?D"
    let ?PA = "pieces ?n parts enums (map attachedRows mesh)"
    have rows: "attachedRows (mesh ! p) = zip (elems (mesh ! p)) (the (elementData (mesh ! p)))"
      and rl: "length (the (elementData (mesh ! p))) = length (elems (mesh ! p))" if "p < ?n" for p
    proof -
      from allS that obtain rows where "elementData (mesh ! p) = Some rows"
        using nth_mem by blast
      with ok that show "attachedRows (mesh ! p) = zip (elems (mesh ! p)) (the (elementData (mesh ! p)))"
        and "length (the (elementData (mesh ! p))) = length (elems (mesh ! p))"
        by (auto simp: attachedRows_def dataOK_def)
    qed
    have pa: "zip (?PE ! p ! r) (?PD ! p ! r) = ?PA ! p ! r" if "p < ?n" "r < ?n" for p r
      using that inr[OF that] rows[OF that(1)] rl[OF that(1)]
      by (simp add: pieces_def length_groups zip_map_same)
    have ar: "attachedRows (mesh' ! r) = concat (map (\<lambda>p. ?PA ! p ! r) [0..<?n])" if "r < ?n" for r
    proof -
      have "elementData (mesh' ! r) = Some (concat (map (\<lambda>p. ?PD ! p ! r) [0..<?n]))"
        using doPartition_data[OF d that] False by simp
      then have "attachedRows (mesh' ! r)
          = zip (concat (map (\<lambda>p. ?PE ! p ! r) [0..<?n])) (concat (map (\<lambda>p. ?PD ! p ! r) [0..<?n]))"
        using I(2)[OF that] by (simp add: attachedRows_def)
      also have "\<dots> = concat (map (\<lambda>p. zip (?PE ! p ! r) (?PD ! p ! r)) [0..<?n])"
        using that by (intro zip_concat_map) (simp add: pieces_def length_groups)
      also have "\<dots> = concat (map (\<lambda>p. ?PA ! p ! r) [0..<?n])"
        using pa that by (intro arg_cong[where f = concat] map_cong) simp_all
      finally show ?thesis .
    qed
    have "globalRows mesh' = mset (concat (map (\<lambda>r. attachedRows (mesh' ! r)) [0..<?n]))"
      unfolding globalRows_def using len by (rule mset_concat_nth)
    also have "map (\<lambda>r. attachedRows (mesh' ! r)) [0..<?n]
               = map (\<lambda>r. concat (map (\<lambda>p. ?PA ! p ! r) [0..<?n])) [0..<?n]"
      using ar by simp
    also have "mset (concat \<dots>) = mset (concat (map attachedRows mesh))"
      using I(4) perm rows rl by (intro mset_pieces) simp_all
    finally show ?thesis by (simp add: globalRows_def)
  qed
  show "\<forall>r<length mesh. dataOK (mesh' ! r)"
  proof (intro allI impI)
    fix r assume r: "r < ?n"
    show "dataOK (mesh' ! r)"
    proof (cases "list_all (\<lambda>m. elementData m = None) mesh")
      case True
      then show ?thesis using doPartition_data[OF d r] by (simp add: dataOK_def)
    next
      case False
      with doPartition_data_agree[OF d] have allS: "\<forall>m\<in>set mesh. elementData m \<noteq> None"
        by (auto simp: list_ex_iff)
      have "length (pieces ?n parts enums (map (\<lambda>m. the (elementData m)) mesh) ! p ! r)
             = length (pieces ?n parts enums (map elems mesh) ! p ! r)" if "p < ?n" for p
        using that r by (simp add: pieces_def length_groups)
      then have "map (\<lambda>p. length (pieces ?n parts enums (map (\<lambda>m. the (elementData m)) mesh) ! p ! r)) [0..<?n]
             = map (\<lambda>p. length (pieces ?n parts enums (map elems mesh) ! p ! r)) [0..<?n]"
        by simp
      from arg_cong[OF this, of sum_list]
      have "length (concat (map (\<lambda>p. pieces ?n parts enums (map (\<lambda>m. the (elementData m)) mesh) ! p ! r) [0..<?n]))
          = length (concat (map (\<lambda>p. pieces ?n parts enums (map elems mesh) ! p ! r) [0..<?n]))"
        by (simp only: length_concat map_map comp_def)
      then show ?thesis
        using doPartition_data[OF d r] False I(2)[OF r]
        by (simp add: dataOK_def)
    qed
  qed
qed

lemma valid_rest_empty:
  assumes "p < n" and "std_sort_post part enum" and "list_all (\<lambda>x. x < int n) part"
  shows "snd (sendLoop part enum [0..<n]) = []"
proof -
  have "\<forall>i\<in>set enum. part ! i \<le> int (last [0..<n])"
  proof
    fix i assume "i \<in> set enum"
    with std_sort_post_set[OF assms(2)] have "i < length part" by simp
    with assms(3) have "part ! i < int n" by (simp add: list_all_length)
    with assms(1) show "part ! i \<le> int (last [0..<n])" by (simp add: last_upt)
  qed
  moreover have "[0..<n] \<noteq> []" using assms(1) by simp
  ultimately show ?thesis by (rule sendLoop_rest_empty[rotated])
qed

text \<open>
  C5. \<^verbatim>\<open>repartition\<close> preserves the global multiset of elements and of the data rows
  attached to them: with a partition vector of the right length and with entries below
  procs on every rank the call returns, and the union over all ranks of the elements, and of
  the pairs of an element and its row, is the one before the call.
\<close>

theorem repartition_preserves_multiset:
  assumes "list_all dataOK mesh"
    and "list_all (\<lambda>m. elementData m = None) mesh \<or> list_all (\<lambda>m. elementData m \<noteq> None) mesh"
    and "list_all2 (\<lambda>m part. length part = numElements m \<and>
                               list_all (\<lambda>x. x < int (length mesh)) part) mesh parts"
    and "list_all2 std_sort_post parts enums"
  shows "\<exists>mesh'. repartition enums parts mesh = Inr mesh' \<and> length mesh' = length mesh \<and>
           globalElements mesh' = globalElements mesh \<and> globalRows mesh' = globalRows mesh"
proof -
  let ?n = "length mesh"
  from assms(3) have lp: "length parts = ?n"
    and val: "\<forall>p<?n. length (parts ! p) = length (elems (mesh ! p)) \<and>
                 list_all (\<lambda>x. x < int ?n) (parts ! p)"
    by (auto simp: list_all2_conv_all_nth numElements_def)
  from assms(4) lp have srt: "\<forall>r<?n. std_sort_post (parts ! r) (enums ! r)"
    by (auto simp: list_all2_conv_all_nth)
  from assms(1) have ok: "\<forall>r<?n. dataOK (mesh ! r)"
    by (simp add: list_all_length)
  have "length (parts ! p) = length (elems (mesh ! p)) \<and>
        snd (sendLoop (parts ! p) (enums ! p) [0..<?n]) = []" if "p < ?n" for p
    using val srt that valid_rest_empty[OF that, of "parts ! p" "enums ! p"] by simp
  moreover from assms(2) have "list_all (\<lambda>m. elementData m = None) mesh \<or>
      \<not> list_ex (\<lambda>m. elementData m = None) mesh"
    by (auto simp: list_all_iff list_ex_iff)
  ultimately obtain m' where d: "doPartition enums parts mesh = Inr m'"
    using doPartition_returns[of mesh parts enums] by blast
  let ?m = "map (\<lambda>s. s\<lparr>isPartitionedByHash := False\<rparr>) m'"
  from d have r: "repartition enums parts mesh = Inr ?m"
    by (simp add: repartition_def)
  have l: "length ?m = ?n" using doPartition_Inr(1)[OF d] by simp
  have e: "globalElements ?m = globalElements m'"
    by (simp add: globalElements_def comp_def)
  have "attachedRows (s\<lparr>isPartitionedByHash := False\<rparr>) = attachedRows s"
    for s :: "'a GlobalSimplexMesh"
    by (simp add: attachedRows_def split: option.splits)
  then have a: "globalRows ?m = globalRows m'"
    by (simp add: globalRows_def comp_def)
  from doPartition_preserves(1,2)[OF d srt ok] e a r l show ?thesis by simp
qed

theorem repartition_preserves_multiset_witness:
  "\<exists>mesh'. repartition [[1, 0], [0]] [[1, 0], [0]] twoRankMesh = Inr mesh' \<and>
     length mesh' = length twoRankMesh \<and>
     globalElements mesh' = globalElements twoRankMesh \<and>
     globalRows mesh' = globalRows twoRankMesh"
proof (rule repartition_preserves_multiset)
  show "list_all dataOK twoRankMesh" by code_simp
  show "list_all (\<lambda>m. elementData m = None) twoRankMesh \<or>
        list_all (\<lambda>m. elementData m \<noteq> None) twoRankMesh" by code_simp
  show "list_all2 (\<lambda>m part. length part = numElements m \<and>
                     list_all (\<lambda>x. x < int (length twoRankMesh)) part) twoRankMesh [[1, 0], [0]]"
    by code_simp
  show "list_all2 std_sort_post [[1, 0], [0]] [[1, 0], [0]]" by code_simp
qed

lemma filter_concat_none:
  "\<forall>k<length gs. \<forall>i\<in>set (gs ! k). key i \<noteq> (c::int) \<Longrightarrow> filter (\<lambda>i. key i = c) (concat gs) = []"
proof (induction gs)
  case Nil
  then show ?case by simp
next
  case (Cons g gs)
  from Cons.prems have g: "\<forall>i\<in>set g. key i \<noteq> c" by fastforce
  from Cons.prems have "\<forall>k<length gs. \<forall>i\<in>set (gs ! k). key i \<noteq> c" by fastforce
  from Cons.IH[OF this] g show ?case by simp
qed

lemma filter_concat_block:
  "\<forall>k<length gs. \<forall>i\<in>set (gs ! k). key i = int (c + k) \<Longrightarrow> p < length gs \<Longrightarrow>
     filter (\<lambda>i. key i = int (c + p)) (concat gs) = gs ! p"
proof (induction gs arbitrary: c p)
  case Nil
  then show ?case by simp
next
  case (Cons g gs)
  from Cons.prems(1) have g: "\<forall>i\<in>set g. key i = int c" by fastforce
  from Cons.prems(1) have tl: "\<forall>k<length gs. \<forall>i\<in>set (gs ! k). key i = int (Suc c + k)"
    by fastforce
  show ?case
  proof (cases p)
    case 0
    from tl have "\<forall>k<length gs. \<forall>i\<in>set (gs ! k). key i \<noteq> int c" by simp
    from filter_concat_none[OF this] g 0 show ?thesis by simp
  next
    case (Suc p')
    with Cons.prems(2) have "p' < length gs" by simp
    from Cons.IH[OF tl this] g Suc show ?thesis by simp
  qed
qed

lemma groups_filter:
  assumes "std_sort_post part enum" and "list_all (\<lambda>x. 0 \<le> x) part"
    and "snd (sendLoop part enum [0..<n]) = []" and "p < n"
  shows "groups part enum n ! p = filter (\<lambda>i. part ! i = int p) enum"
proof -
  have "part ! i = int (0 + k)" if "k < length (groups part enum n)" "i \<in> set (groups part enum n ! k)"
    for k i
  proof -
    from that(1) have k: "k < n" by (simp add: length_groups)
    from groups_subset[OF k that(2)] std_sort_post_set[OF assms(1)] have "i < length part" by simp
    with assms(2) have "0 \<le> part ! i" by (simp add: list_all_length)
    from groups_target(1)[OF assms(1) k that(2) this] show ?thesis by simp
  qed
  then have "filter (\<lambda>i. part ! i = int (0 + p)) (concat (groups part enum n)) = groups part enum n ! p"
    using assms(4) by (intro filter_concat_block) (simp_all add: length_groups)
  with concat_groups[OF assms(3)] show ?thesis by simp
qed

text \<open>
  C6, as the claim states it, fails: \<^verbatim>\<open>std::sort\<close> is not stable. With up to 16 local
  elements \<^verbatim>\<open>std::sort\<close> of libstdc++ is an insertion sort and keeps the order of equal
  targets. With 17 local elements that are all bound for rank 0 its introsort loop runs
  once: the median step swaps the entries 0 and 8 of the enumeration (no comparison is
  true), the unguarded partition then swaps 1 with 16, 2 with 15, and so on to 8 with 9,
  and the final insertion sort moves nothing. The enumeration is then
  \<open>[8, 16, 15, 14, 13, 12, 11, 10, 9, 0, 7, 6, 5, 4, 3, 2, 1]\<close>, and the send buffer
  starts with local element 8, while local element 0 is at position 9.
\<close>

theorem packElems_not_stable:
  "std_sort_post [0, 0, 0, 0, 0, 0, 0, 0, 0, 0, 0, 0, 0, 0, 0, 0, 0]
     [8, 16, 15, 14, 13, 12, 11, 10, 9, 0, 7, 6, 5, 4, 3, 2, 1] \<and>
   packElems 1 [0, 0, 0, 0, 0, 0, 0, 0, 0, 0, 0, 0, 0, 0, 0, 0, 0]
     [8, 16, 15, 14, 13, 12, 11, 10, 9, 0, 7, 6, 5, 4, 3, 2, 1]
     [[0, 1, 2], [1, 2, 3], [2, 3, 4], [3, 4, 5], [4, 5, 6], [5, 6, 7],
      [6, 7, 8], [7, 8, 9], [8, 9, 10], [9, 10, 11], [10, 11, 12], [11, 12, 13],
      [12, 13, 14], [13, 14, 15], [14, 15, 16], [15, 16, 17], [16, 17, 18]]
   = Inr ([17],
     [[8, 9, 10], [16, 17, 18], [15, 16, 17], [14, 15, 16], [13, 14, 15], [12, 13, 14],
      [11, 12, 13], [10, 11, 12], [9, 10, 11], [0, 1, 2], [7, 8, 9], [6, 7, 8],
      [5, 6, 7], [4, 5, 6], [3, 4, 5], [2, 3, 4], [1, 2, 3]])"
  by code_simp

text \<open>
  C6, amended. The permutation is ordered by target rank, ascending, so the send buffer
  is a rearrangement of the local element array that holds, for the ranks in ascending
  order, the block of the elements bound for that rank, and the send count of a rank is
  the size of its block. Inside a block the elements are in the order of the permutation;
  \<^verbatim>\<open>std::sort\<close> does not promise that this is their order in the local array.
\<close>

theorem packElems_blocks_by_target:
  assumes "std_sort_post part enumeration"
    and "list_all (\<lambda>x. 0 \<le> x) part"
    and "packElems procs part enumeration els = Inr (sc, buf)"
  shows "mset buf = mset els \<and>
         buf = concat (map (\<lambda>p. map (\<lambda>i. els ! i) (filter (\<lambda>i. part ! i = int p) enumeration))
                         [0..<procs]) \<and>
         sc = map (\<lambda>p. length (filter (\<lambda>i. part ! i = int p) enumeration)) [0..<procs]"
proof -
  from assms(3) have len: "length part = length els"
    and rest: "snd (sendLoop part enumeration [0..<procs]) = []"
    and sc: "sc = map length (groups part enumeration procs)"
    and buf: "buf = map (\<lambda>i. els ! i) (concat (groups part enumeration procs))"
    unfolding packElems_Inr by simp_all
  have g: "groups part enumeration procs
             = map (\<lambda>p. filter (\<lambda>i. part ! i = int p) enumeration) [0..<procs]"
  proof (rule nth_equalityI)
    show "length (groups part enumeration procs)
            = length (map (\<lambda>p. filter (\<lambda>i. part ! i = int p) enumeration) [0..<procs])"
      by (simp add: length_groups)
    fix p assume "p < length (groups part enumeration procs)"
    then have p: "p < procs" by (simp add: length_groups)
    from groups_filter[OF assms(1,2) rest p] p
    show "groups part enumeration procs ! p
            = map (\<lambda>p. filter (\<lambda>i. part ! i = int p) enumeration) [0..<procs] ! p"
      by simp
  qed
  from buf concat_groups[OF rest] have b: "buf = map (\<lambda>i. els ! i) enumeration" by simp
  have "mset buf = image_mset (\<lambda>i. els ! i) (mset enumeration)"
    unfolding b by (simp only: mset_map)
  also have "\<dots> = image_mset (\<lambda>i. els ! i) (mset [0..<length els])"
    using std_sort_post_mset[OF assms(1)] len by (simp only:)
  also have "\<dots> = mset (map (\<lambda>i. els ! i) [0..<length els])"
    by (simp only: mset_map)
  also have "\<dots> = mset els" by (simp only: map_nth)
  finally have m: "mset buf = mset els" .
  have b2: "buf = concat (map (\<lambda>p. map (\<lambda>i. els ! i) (filter (\<lambda>i. part ! i = int p) enumeration))
                         [0..<procs])"
    unfolding buf g by (simp add: map_concat comp_def)
  have s2: "sc = map (\<lambda>p. length (filter (\<lambda>i. part ! i = int p) enumeration)) [0..<procs]"
    unfolding sc g by (simp add: comp_def)
  from m b2 s2 show ?thesis by blast
qed

text \<open>For three local elements with the targets 1, 0, 1 the insertion sort of
  \<^verbatim>\<open>std::sort\<close> gives the enumeration \<open>[1, 0, 2]\<close>.\<close>

theorem packElems_blocks_by_target_witness:
  "mset [[1, 2, 3], [0, 1, 2], [2, 3, 4]] = mset [[0, 1, 2], [1, 2, 3], [2, 3, 4::nat]] \<and>
   [[1, 2, 3], [0, 1, 2], [2, 3, 4]]
     = concat (map (\<lambda>p. map (\<lambda>i. [[0, 1, 2], [1, 2, 3], [2, 3, 4::nat]] ! i)
                            (filter (\<lambda>i. [1, 0, 1] ! i = int p) [1, 0, 2])) [0..<2]) \<and>
   [1, 2] = map (\<lambda>p. length (filter (\<lambda>i. [1, 0, 1] ! i = int p) [1, 0, 2])) [0..<2]"
proof -
  have a: "std_sort_post [1, 0, 1] [1, 0, 2]" by code_simp
  have b: "list_all (\<lambda>x. 0 \<le> x) [1, 0, 1::int]" by simp
  have c: "packElems 2 [1, 0, 1] [1, 0, 2] [[0, 1, 2], [1, 2, 3], [2, 3, 4]]
             = Inr ([1, 2], [[1, 2, 3], [0, 1, 2], [2, 3, 4]])" by code_simp
  from packElems_blocks_by_target[OF a b c] show ?thesis .
qed

subsection \<open>Ghost growth and the local view of the elements\<close>

lemma thenE_Inr: "thenE m f = Inr y \<longleftrightarrow> (\<exists>x. m = Inr x \<and> f x = Inr y)"
  by (cases m) (simp_all add: thenE_def)

lemma distinct_remdups_adj_sorted: "sorted xs \<Longrightarrow> distinct (remdups_adj xs)"
  by (induction xs rule: remdups_adj.induct) auto

lemma ghostIteration_appends:
  assumes "ghostIteration H v2r D flag dbf els = Inr (dbf', els')"
  shows "length els' = length els"
    and "r < length els \<Longrightarrow> \<exists>b. els' ! r = els ! r @ b \<and> sorted b \<and> distinct b"
proof -
  from assms obtain received :: "simplex list list" where
    e: "els' = map (\<lambda>r. els ! r @ remdups_adj (sort (received ! r))) [0..<length els]"
    unfolding ghostIteration_def Let_def thenE_Inr by auto
  from e show "length els' = length els" by simp
  assume "r < length els"
  with e have "els' ! r = els ! r @ remdups_adj (sort (received ! r))" by simp
  moreover have "sorted (remdups_adj (sort (received ! r)))" by simp
  moreover have "distinct (remdups_adj (sort (received ! r)))"
    by (rule distinct_remdups_adj_sorted) simp
  ultimately show "\<exists>b. els' ! r = els ! r @ b \<and> sorted b \<and> distinct b" by blast
qed

lemma ghostLoop_prefix:
  "ghostLoop H v2r D k ol flag dbf els log = Inr (res, log') \<Longrightarrow>
     length res = length els \<and>
     (\<forall>r<length els. \<exists>bs. length bs = k \<and> res ! r = els ! r @ concat bs \<and>
                         (\<forall>b\<in>set bs. sorted b \<and> distinct b))"
proof (induction k arbitrary: ol dbf els log)
  case 0
  then show ?case by simp
next
  case (Suc k)
  from Suc.prems obtain dbf' els' where
    it: "ghostIteration H v2r D flag dbf els = Inr (dbf', els')"
    and lp: "ghostLoop H v2r D k (Suc ol) flag dbf' els'
               (log @ [if flag then LocalFilter ol else RoundTrip ol]) = Inr (res, log')"
    by (auto simp: thenE_Inr)
  note A = ghostIteration_appends[OF it]
  from Suc.IH[OF lp] A(1) have len: "length res = length els"
    and IH: "\<forall>r<length els. \<exists>bs. length bs = k \<and> res ! r = els' ! r @ concat bs \<and>
                         (\<forall>b\<in>set bs. sorted b \<and> distinct b)"
    by simp_all
  have "\<exists>bs. length bs = Suc k \<and> res ! r = els ! r @ concat bs \<and>
             (\<forall>b\<in>set bs. sorted b \<and> distinct b)" if r: "r < length els" for r
  proof -
    from A(2)[OF r] obtain b where b: "els' ! r = els ! r @ b" "sorted b" "distinct b" by blast
    from IH r obtain bs where bs: "length bs = k" "res ! r = els' ! r @ concat bs"
      "\<forall>b\<in>set bs. sorted b \<and> distinct b" by blast
    have "length (b # bs) = Suc k" using bs(1) by simp
    moreover have "res ! r = els ! r @ concat (b # bs)" using b(1) bs(2) by simp
    moreover have "\<forall>c\<in>set (b # bs). sorted c \<and> distinct c" using b(2,3) bs(3) by simp
    ultimately show ?thesis by blast
  qed
  with len show ?case by blast
qed

lemma ghostLoop_log:
  "ghostLoop H v2r D k ol flag dbf els log = Inr (res, log') \<Longrightarrow>
     log' = log @ map (\<lambda>i. if flag then LocalFilter i else RoundTrip i) [ol..<ol + k]"
proof (induction k arbitrary: ol dbf els log)
  case 0
  then show ?case by simp
next
  case (Suc k)
  from Suc.prems obtain dbf' els' where
    lp: "ghostLoop H v2r D k (Suc ol) flag dbf' els'
               (log @ [if flag then LocalFilter ol else RoundTrip ol]) = Inr (res, log')"
    by (auto simp: thenE_Inr)
  have "[ol..<ol + Suc k] = ol # [Suc ol..<Suc ol + k]"
    by (simp del: upt_Suc add: upt_conv_Cons)
  with Suc.IH[OF lp] show ?case by (simp del: upt_Suc)
qed

lemma getGhostElements_round_trips:
  "getGhostElements H v2r D els overlap = Inr (res, log) \<Longrightarrow> log = map RoundTrip [1..<Suc overlap]"
  using ghostLoop_log[of H v2r D overlap 1 False "map (\<lambda>_. []) els" els "[]" res log]
  by (simp add: getGhostElements_def del: upt_Suc)

text \<open>
  C1 fails on the code: \<^verbatim>\<open>hasDomainBoundaryFaces\<close> is never set, so the round trip to the
  face hash owners is made in every iteration and the local filter with the persistent set
  never runs. On one rank with two triangles and overlap 2 the call returns after a round
  trip in iteration 1 and another one in iteration 2.
\<close>

theorem round_trip_in_every_iteration:
  "getGhostElements sum_list None 2 [[[0, 1, 2], [1, 2, 3]]] 2
     = Inr ([[[0, 1, 2], [1, 2, 3]]], [RoundTrip 1, RoundTrip 2])"
  by code_simp

text \<open>
  C9 fails on the code: a strip of four triangles, two on each of two ranks, is manifold
  and has no repeated element. With overlap 1 the ghost growth returns; with overlap 2 the
  assertion of line 273 fails in the second iteration, where the hash owner of a
  boundary edge of a triangle that both ranks now hold receives the same pair of edge and
  triangle from both ranks.
\<close>

theorem strip_overlap_2_aborts:
  "manifold 2 [[[0, 1, 2], [1, 2, 3]], [[2, 3, 4], [3, 4, 5]]] \<and>
   distinct (concat [[[0, 1, 2], [1, 2, 3]], [[2, 3, 4], [3, 4, 5::nat]]]) \<and>
   getGhostElements sum_list None 2 [[[0, 1, 2], [1, 2, 3]], [[2, 3, 4], [3, 4, 5]]] 1
     = Inr ([[[0, 1, 2], [1, 2, 3], [2, 3, 4]], [[2, 3, 4], [3, 4, 5], [1, 2, 3]]], [RoundTrip 1]) \<and>
   getGhostElements sum_list None 2 [[[0, 1, 2], [1, 2, 3]], [[2, 3, 4], [3, 4, 5]]] 2
     = Inl AssertionFailed"
  by code_simp

lemma gidOffset_exclusive:
  assumes "r < length mesh"
  shows "mpiScan (map numElements mesh) r - numElements (mesh ! r)
           = sum_list (map numElements (take r mesh))"
proof -
  have "take (Suc r) (map numElements mesh) = map numElements (take r mesh) @ [numElements (mesh ! r)]"
    using assms by (simp add: take_Suc_conv_app_nth take_map)
  then show ?thesis by (simp add: mpiScan_def)
qed

lemma upt_add_conv_map: "[a..<a + n] = map (\<lambda>i. a + i) [0..<n]"
  by (induction n) simp_all

lemma elementLocalFaces_Inr:
  assumes "elementLocalFaces H v2r D mesh overlap = Inr lfs"
  shows "\<exists>res log. getGhostElements H v2r D (map elems mesh) overlap = Inr (res, log) \<and>
           length lfs = length mesh \<and>
           (\<forall>r<length mesh. faces (lfs ! r) = res ! r \<and>
              contiguousGIDs (lfs ! r) =
                map (\<lambda>i. sum_list (map numElements (take r mesh)) + i) [0..<numElements (mesh ! r)])"
proof -
  from assms obtain res log where g: "getGhostElements H v2r D (map elems mesh) overlap = Inr (res, log)"
    and l: "lfs = map (\<lambda>r. let ownedSize = numElements (mesh ! r);
                          gidOffset = mpiScan (map numElements mesh) r - ownedSize
                      in \<lparr>faces = res ! r,
                          contiguousGIDs = [gidOffset..<gidOffset + numElements (mesh ! r)],
                          sharedRanks = [], sharedRanksDispls = []\<rparr>)
              [0..<length mesh]"
    unfolding elementLocalFaces_def thenE_Inr by auto
  have "contiguousGIDs (lfs ! r) =
          map (\<lambda>i. sum_list (map numElements (take r mesh)) + i) [0..<numElements (mesh ! r)]"
    if "r < length mesh" for r
    using that l gidOffset_exclusive[OF that] by (simp add: Let_def upt_add_conv_map)
  with g l show ?thesis by (simp add: Let_def)
qed

text \<open>
  C10. The element list of the local view starts with the owned elements in their order;
  every iteration appends one batch, sorted and without duplicates, behind them. The
  contiguous ids are the offset of the rank (the number of elements owned by the ranks
  before it) plus the position, so they line up with the owned elements position by
  position. With overlap 0 the call returns and the element list is the owned one.
\<close>

theorem elementLocalFaces_owned_prefix:
  "(\<exists>lfs. elementLocalFaces H v2r D mesh 0 = Inr lfs \<and> map faces lfs = map elems mesh) \<and>
   (\<forall>lfs. elementLocalFaces H v2r D mesh overlap = Inr lfs \<longrightarrow>
      length lfs = length mesh \<and>
      (\<forall>r<length mesh.
         take (numElements (mesh ! r)) (faces (lfs ! r)) = elems (mesh ! r) \<and>
         (\<exists>batches. length batches = overlap \<and>
                    faces (lfs ! r) = elems (mesh ! r) @ concat batches \<and>
                    (\<forall>b\<in>set batches. sorted b \<and> distinct b)) \<and>
         contiguousGIDs (lfs ! r) =
           map (\<lambda>i. sum_list (map numElements (take r mesh)) + i) [0..<numElements (mesh ! r)]))"
proof (intro conjI allI impI)
  have "map faces (map (\<lambda>r. let ownedSize = numElements (mesh ! r);
                          gidOffset = mpiScan (map numElements mesh) r - ownedSize
                      in \<lparr>faces = map elems mesh ! r,
                          contiguousGIDs = [gidOffset..<gidOffset + numElements (mesh ! r)],
                          sharedRanks = [], sharedRanksDispls = []\<rparr>)
              [0..<length mesh]) = map elems mesh"
    by (rule nth_equalityI) (simp_all add: Let_def)
  then show "\<exists>lfs. elementLocalFaces H v2r D mesh 0 = Inr lfs \<and> map faces lfs = map elems mesh"
    by (simp add: elementLocalFaces_def getGhostElements_def thenE_def)
next
  fix lfs assume a: "elementLocalFaces H v2r D mesh overlap = Inr lfs"
  from elementLocalFaces_Inr[OF a] obtain res log where
    g: "getGhostElements H v2r D (map elems mesh) overlap = Inr (res, log)"
    and l: "length lfs = length mesh"
    and f: "\<forall>r<length mesh. faces (lfs ! r) = res ! r \<and>
              contiguousGIDs (lfs ! r) =
                map (\<lambda>i. sum_list (map numElements (take r mesh)) + i) [0..<numElements (mesh ! r)]"
    by blast
  from l show "length lfs = length mesh" .
  fix r assume r: "r < length mesh"
  from ghostLoop_prefix[OF g[unfolded getGhostElements_def]] r
  obtain bs where bs: "length bs = overlap" "res ! r = elems (mesh ! r) @ concat bs"
    "\<forall>b\<in>set bs. sorted b \<and> distinct b"
    by auto
  from f r have fr: "faces (lfs ! r) = res ! r" by simp
  show "take (numElements (mesh ! r)) (faces (lfs ! r)) = elems (mesh ! r)"
    using fr bs(2) by (simp add: numElements_def)
  show "\<exists>batches. length batches = overlap \<and>
                    faces (lfs ! r) = elems (mesh ! r) @ concat batches \<and>
                    (\<forall>b\<in>set batches. sorted b \<and> distinct b)"
    using fr bs by auto
  show "contiguousGIDs (lfs ! r) =
           map (\<lambda>i. sum_list (map numElements (take r mesh)) + i) [0..<numElements (mesh ! r)]"
    using f r by simp
qed

theorem elementLocalFaces_owned_prefix_witness:
  "elementLocalFaces sum_list None 2 stripMesh 1
     = Inr [\<lparr>faces = [[0, 1, 2], [1, 2, 3], [2, 3, 4]], contiguousGIDs = [0, 1],
              sharedRanks = [], sharedRanksDispls = []\<rparr>,
            \<lparr>faces = [[2, 3, 4], [3, 4, 5], [1, 2, 3]], contiguousGIDs = [2, 3],
              sharedRanks = [], sharedRanksDispls = []\<rparr>] \<and>
   take (numElements (stripMesh ! 1)) [[2, 3, 4], [3, 4, 5], [1, 2, 3]] = elems (stripMesh ! 1) \<and>
   [2, 3] = map (\<lambda>i. sum_list (map numElements (take 1 stripMesh)) + i)
              [0..<numElements (stripMesh ! 1)]"
proof -
  have e: "elementLocalFaces sum_list None 2 stripMesh 1
     = Inr [\<lparr>faces = [[0, 1, 2], [1, 2, 3], [2, 3, 4]], contiguousGIDs = [0, 1],
              sharedRanks = [], sharedRanksDispls = []\<rparr>,
            \<lparr>faces = [[2, 3, 4], [3, 4, 5], [1, 2, 3]], contiguousGIDs = [2, 3],
              sharedRanks = [], sharedRanksDispls = []\<rparr>]"
    by code_simp
  have l: "(1::nat) < length stripMesh" by (simp add: stripMesh_def)
  from elementLocalFaces_owned_prefix[of sum_list None 2 stripMesh 1, THEN conjunct2, rule_format, OF e]
  have "\<forall>r<length stripMesh.
         take (numElements (stripMesh ! r))
           (faces ([\<lparr>faces = [[0, 1, 2], [1, 2, 3], [2, 3, 4]], contiguousGIDs = [0, 1],
              sharedRanks = [], sharedRanksDispls = []\<rparr>,
            \<lparr>faces = [[2, 3, 4], [3, 4, 5], [1, 2, 3]], contiguousGIDs = [2, 3],
              sharedRanks = [], sharedRanksDispls = []\<rparr>] ! r)) = elems (stripMesh ! r) \<and>
         (\<exists>batches. length batches = 1 \<and>
                    faces ([\<lparr>faces = [[0, 1, 2], [1, 2, 3], [2, 3, 4]], contiguousGIDs = [0, 1],
              sharedRanks = [], sharedRanksDispls = []\<rparr>,
            \<lparr>faces = [[2, 3, 4], [3, 4, 5], [1, 2, 3]], contiguousGIDs = [2, 3],
              sharedRanks = [], sharedRanksDispls = []\<rparr>] ! r) = elems (stripMesh ! r) @ concat batches \<and>
                    (\<forall>b\<in>set batches. sorted b \<and> distinct b)) \<and>
         contiguousGIDs ([\<lparr>faces = [[0, 1, 2], [1, 2, 3], [2, 3, 4]], contiguousGIDs = [0, 1],
              sharedRanks = [], sharedRanksDispls = []\<rparr>,
            \<lparr>faces = [[2, 3, 4], [3, 4, 5], [1, 2, 3]], contiguousGIDs = [2, 3],
              sharedRanks = [], sharedRanksDispls = []\<rparr>] ! r) =
           map (\<lambda>i. sum_list (map numElements (take r stripMesh)) + i) [0..<numElements (stripMesh ! r)]"
    by blast
  note F = this[rule_format, OF l]
  have n: "[\<lparr>faces = [[0, 1, 2], [1, 2, 3], [2, 3, 4]], contiguousGIDs = [0, 1],
              sharedRanks = [], sharedRanksDispls = []\<rparr>,
            \<lparr>faces = [[2, 3, 4], [3, 4, 5], [1, 2, 3]], contiguousGIDs = [2, 3],
              sharedRanks = [], sharedRanksDispls = []\<rparr>] ! 1
           = \<lparr>faces = [[2, 3, 4], [3, 4, 5], [1, 2, 3]], contiguousGIDs = [2, 3::nat],
              sharedRanks = [], sharedRanksDispls = []\<rparr>"
    by simp
  from F[unfolded n LocalFaces.select_convs] e show ?thesis by blast
qed

text \<open>
  C2 fails on the code: the vector of contiguous ids of the entry of dimension \<open>D\<close> has one
  entry per owned element and none for a ghost element. For two triangles that share an
  edge, one on each of two ranks, and overlap 1, rank 0 holds the triangle \<open>[0, 1, 3]\<close> of
  rank 1 as a ghost at position 1, and its vector of ids is \<open>[0]\<close>: the id 1 that rank 1
  gives to this triangle does not arrive on rank 0.
\<close>

theorem ghost_elements_without_GID:
  "elementLocalFaces sum_list None 2 twoTriangles 1
     = Inr [\<lparr>faces = [[0, 1, 2], [0, 1, 3]], contiguousGIDs = [0],
              sharedRanks = [], sharedRanksDispls = []\<rparr>,
            \<lparr>faces = [[0, 1, 3], [0, 1, 2]], contiguousGIDs = [1],
              sharedRanks = [], sharedRanksDispls = []\<rparr>]"
  by code_simp

subsection \<open>Faces of lower dimension: global ids\<close>

lemma exchange_chunks:
  assumes "length a2a = n"
    and "\<forall>p<n. sendcounts (a2a ! p) = map length (Nss ! p) \<and> length (Nss ! p) = n \<and>
                bufs ! p = concat (Nss ! p)"
    and "\<forall>r<n. \<forall>p<n. recvcounts (a2a ! r) ! p = length (Nss ! p ! r)"
    and "r < n"
  shows "exchange a2a bufs ! r = concat (map (\<lambda>p. Nss ! p ! r) [0..<n])"
proof -
  have "take (recvcounts (a2a ! r) ! p) (chunk (sendcounts (a2a ! p)) (bufs ! p) r) = Nss ! p ! r"
    if "p < n" for p
  proof -
    have "chunk (map length (Nss ! p)) (concat (Nss ! p)) r = Nss ! p ! r"
      using assms(2,4) that by (intro chunk_concat) simp
    then show ?thesis using assms(2,3,4) that by simp
  qed
  then have m: "map (\<lambda>p. take (recvcounts (a2a ! r) ! p) (chunk (sendcounts (a2a ! p)) (bufs ! p) r)) [0..<n]
           = map (\<lambda>p. Nss ! p ! r) [0..<n]"
    by simp
  have "exchange a2a bufs ! r
          = concat (map (\<lambda>p. take (recvcounts (a2a ! r) ! p)
                                (chunk (sendcounts (a2a ! p)) (bufs ! p) r)) [0..<n])"
    using assms(1,4) by (simp add: exchange_def)
  also note m
  finally show ?thesis .
qed

lemma swap_send_props:
  assumes "length sc = n" and "p < n"
  shows "length (swap_a2a (AllToAllV_send sc)) = n"
    and "sendcounts (swap_a2a (AllToAllV_send sc) ! p) = map (\<lambda>q. sc ! q ! p) [0..<n]"
    and "recvcounts (swap_a2a (AllToAllV_send sc) ! p) = sc ! p"
  using assms by (simp_all add: swap_a2a_def AllToAllV_send_def)

text \<open>The pieces of a reply: what owner \<open>w\<close> sends back to requester \<open>r\<close> is the image of
  what \<open>r\<close> sent to \<open>w\<close>.\<close>

lemma exchange_reply:
  assumes "length Mss = n" and "\<forall>r<n. length (Mss ! r) = n" and "r < n"
    and "\<forall>w<n. bufs ! w = concat (map (\<lambda>q. g w (Mss ! q ! w)) [0..<n])"
    and "\<forall>w<n. \<forall>q<n. length (g w (Mss ! q ! w)) = length (Mss ! q ! w)"
  shows "exchange (swap_a2a (AllToAllV_send (map (map length) Mss))) bufs ! r
           = concat (map (\<lambda>w. g w (Mss ! r ! w)) [0..<n])"
proof -
  let ?sc = "map (map length) Mss"
  let ?N = "map (\<lambda>w. map (\<lambda>q. g w (Mss ! q ! w)) [0..<n]) [0..<n]"
  have l: "length ?sc = n" using assms(1) by simp
  have "exchange (swap_a2a (AllToAllV_send ?sc)) bufs ! r = concat (map (\<lambda>p. ?N ! p ! r) [0..<n])"
  proof (rule exchange_chunks)
    show "length (swap_a2a (AllToAllV_send ?sc)) = n"
      using assms(1) by (simp add: swap_a2a_def AllToAllV_send_def)
    show "\<forall>p<n. sendcounts (swap_a2a (AllToAllV_send ?sc) ! p) = map length (?N ! p) \<and>
                length (?N ! p) = n \<and> bufs ! p = concat (?N ! p)"
      using assms(1,2,4,5) by (simp add: swap_send_props[OF l] comp_def)
    show "\<forall>r<n. \<forall>p<n. recvcounts (swap_a2a (AllToAllV_send ?sc) ! r) ! p = length (?N ! p ! r)"
      using assms(1,2,5) by (simp add: swap_send_props[OF l])
    show "r < n" by (rule assms(3))
  qed
  also have "map (\<lambda>p. ?N ! p ! r) [0..<n] = map (\<lambda>w. g w (Mss ! r ! w)) [0..<n]"
    using assms(3) by simp
  finally show ?thesis .
qed

lemma requiredAll_props:
  "length (requiredAll H v2r DD elsAll) = length elsAll"
  "r < length elsAll \<Longrightarrow> length (requiredAll H v2r DD elsAll ! r) = length elsAll"
  "r < length elsAll \<Longrightarrow> w < length elsAll \<Longrightarrow>
     requiredAll H v2r DD elsAll ! r ! w
       = requiredFaces (getPlex2Rank H v2r (length elsAll) DD) DD (elsAll ! r) w"
  by (simp_all add: requiredAll_def)

lemma requiredFaces_set:
  "set (requiredFaces rk DD els p) = {s \<in> set (concat (map (downward DD) els)). rk s = p}"
  by (auto simp: requiredFaces_def)

lemma requiredFaces_distinct: "distinct (requiredFaces rk DD els p)"
  by (simp add: requiredFaces_def)

lemma map_concat_upt: "map f (concat (map g [0..<n])) = concat (map (\<lambda>q. map f (g q)) [0..<n])"
  by (simp add: map_concat comp_def)

lemma getFaces_requested:
  assumes "w < length elsAll"
  shows "exchange (AllToAllV_send (map (map length) (requiredAll H v2r DD elsAll)))
           (map concat (requiredAll H v2r DD elsAll)) ! w = requestedAll H v2r DD elsAll ! w"
  using assms exchange_pieces[of "requiredAll H v2r DD elsAll" "length elsAll" w]
  by (simp add: requiredAll_props requestedAll_def)

lemma getFaces_requested_all:
  "exchange (AllToAllV_send (map (map length) (requiredAll H v2r DD elsAll)))
           (map concat (requiredAll H v2r DD elsAll)) = requestedAll H v2r DD elsAll"
proof (rule nth_equalityI)
  show "length (exchange (AllToAllV_send (map (map length) (requiredAll H v2r DD elsAll)))
           (map concat (requiredAll H v2r DD elsAll))) = length (requestedAll H v2r DD elsAll)"
    by (simp add: exchange_length AllToAllV_send_length requiredAll_props requestedAll_def)
next
  fix w assume "w < length (exchange (AllToAllV_send (map (map length) (requiredAll H v2r DD elsAll)))
           (map concat (requiredAll H v2r DD elsAll)))"
  then have "w < length elsAll"
    by (simp add: exchange_length AllToAllV_send_length requiredAll_props)
  then show "exchange (AllToAllV_send (map (map length) (requiredAll H v2r DD elsAll)))
           (map concat (requiredAll H v2r DD elsAll)) ! w = requestedAll H v2r DD elsAll ! w"
    by (rule getFaces_requested)
qed

lemma getFaces_Inr:
  assumes "getFaces H v2r DD elsAll = Inr lfs"
  shows "length lfs = length elsAll"
    and "\<forall>r<length elsAll. \<forall>s\<in>set (concat (map (downward DD) (elsAll ! r))).
           getPlex2Rank H v2r (length elsAll) DD s < length elsAll"
    and "r < length elsAll \<Longrightarrow>
           lfs ! r = \<lparr>faces = concat (requiredAll H v2r DD elsAll ! r),
                      contiguousGIDs = getContiguousGIDs DD (requestedAll H v2r DD elsAll)
                            (swap_a2a (AllToAllV_send (map (map length) (requiredAll H v2r DD elsAll)))) ! r,
                      sharedRanks = fst (getSharedRanks (requestedAll H v2r DD elsAll)
                            (swap_a2a (AllToAllV_send (map (map length) (requiredAll H v2r DD elsAll)))) ! r),
                      sharedRanksDispls = snd (getSharedRanks (requestedAll H v2r DD elsAll)
                            (swap_a2a (AllToAllV_send (map (map length) (requiredAll H v2r DD elsAll)))) ! r)\<rparr>"
proof -
  let ?n = "length elsAll"
  let ?rk = "getPlex2Rank H v2r ?n DD"
  from assms have nex: "\<not> list_ex (\<lambda>els. list_ex (\<lambda>s. ?n \<le> ?rk s) (concat (map (downward DD) els))) elsAll"
    by (auto simp: getFaces_def Let_def split: if_splits)
  then show "\<forall>r<?n. \<forall>s\<in>set (concat (map (downward DD) (elsAll ! r))). ?rk s < ?n"
    unfolding list_ex_iff by (metis nth_mem not_le)
  from assms nex have l: "lfs = map (\<lambda>r. \<lparr>faces = map concat (requiredAll H v2r DD elsAll) ! r,
          contiguousGIDs = getContiguousGIDs DD (requestedAll H v2r DD elsAll)
                            (swap_a2a (AllToAllV_send (map (map length) (requiredAll H v2r DD elsAll)))) ! r,
          sharedRanks = fst (getSharedRanks (requestedAll H v2r DD elsAll)
                            (swap_a2a (AllToAllV_send (map (map length) (requiredAll H v2r DD elsAll)))) ! r),
          sharedRanksDispls = snd (getSharedRanks (requestedAll H v2r DD elsAll)
                            (swap_a2a (AllToAllV_send (map (map length) (requiredAll H v2r DD elsAll)))) ! r)\<rparr>)
        [0..<?n]"
    unfolding getFaces_def Let_def getFaces_requested_all[symmetric] requiredAll_def
    by (simp split: if_splits)
  from l show "length lfs = ?n" by simp
  assume "r < ?n"
  with l show "lfs ! r = \<lparr>faces = concat (requiredAll H v2r DD elsAll ! r),
                      contiguousGIDs = getContiguousGIDs DD (requestedAll H v2r DD elsAll)
                            (swap_a2a (AllToAllV_send (map (map length) (requiredAll H v2r DD elsAll)))) ! r,
                      sharedRanks = fst (getSharedRanks (requestedAll H v2r DD elsAll)
                            (swap_a2a (AllToAllV_send (map (map length) (requiredAll H v2r DD elsAll)))) ! r),
                      sharedRanksDispls = snd (getSharedRanks (requestedAll H v2r DD elsAll)
                            (swap_a2a (AllToAllV_send (map (map length) (requiredAll H v2r DD elsAll)))) ! r)\<rparr>"
    by (simp add: requiredAll_props)
qed

lemma nth_upt_self: "length xs = n \<Longrightarrow> map (\<lambda>w. xs ! w) [0..<n] = xs"
  by (auto intro: nth_equalityI)

lemma reply_along_faces:
  assumes r: "r < length elsAll"
    and bufs: "\<forall>w<length elsAll. bufs ! w = map (g w) (requestedAll H v2r DD elsAll ! w)"
    and same: "\<forall>w<length elsAll. \<forall>f\<in>set (requiredAll H v2r DD elsAll ! r ! w). g w f = G f"
  shows "exchange (swap_a2a (AllToAllV_send (map (map length) (requiredAll H v2r DD elsAll)))) bufs ! r
           = map G (concat (requiredAll H v2r DD elsAll ! r))"
proof -
  let ?n = "length elsAll"
  let ?M = "requiredAll H v2r DD elsAll"
  have "exchange (swap_a2a (AllToAllV_send (map (map length) ?M))) bufs ! r
          = concat (map (\<lambda>w. map (g w) (?M ! r ! w)) [0..<?n])"
  proof (rule exchange_reply[where g = "\<lambda>w. map (g w)"])
    show "length ?M = ?n" by (simp add: requiredAll_props)
    show "\<forall>r<?n. length (?M ! r) = ?n" by (simp add: requiredAll_props)
    show "r < ?n" by (rule r)
    show "\<forall>w<?n. bufs ! w = concat (map (\<lambda>q. map (g w) (?M ! q ! w)) [0..<?n])"
      using bufs by (simp add: requestedAll_def map_concat_upt)
    show "\<forall>w<?n. \<forall>q<?n. length (map (g w) (?M ! q ! w)) = length (?M ! q ! w)" by simp
  qed
  also have "map (\<lambda>w. map (g w) (?M ! r ! w)) [0..<?n] = map (\<lambda>w. map G (?M ! r ! w)) [0..<?n]"
    using same by simp
  also have "concat \<dots> = map G (concat (map (\<lambda>w. ?M ! r ! w) [0..<?n]))"
    by (simp add: map_concat_upt)
  also have "map (\<lambda>w. ?M ! r ! w) [0..<?n] = ?M ! r"
    using r by (intro nth_upt_self) (simp add: requiredAll_props)
  finally show ?thesis .
qed

lemma required_owner:
  assumes "r < length elsAll" and "w < length elsAll"
    and "f \<in> set (requiredAll H v2r DD elsAll ! r ! w)"
  shows "getPlex2Rank H v2r (length elsAll) DD f = w"
    and "f \<in> set (concat (map (downward DD) (elsAll ! r)))"
  using assms by (simp_all add: requiredAll_props requiredFaces_set)

lemma getFaces_GIDs:
  assumes "getFaces H v2r DD elsAll = Inr lfs" and "r < length elsAll"
  shows "contiguousGIDs (lfs ! r) = map (faceGID H v2r DD elsAll) (faces (lfs ! r))"
proof -
  let ?n = "length elsAll"
  let ?RF = "requestedAll H v2r DD elsAll"
  let ?g = "\<lambda>w f. if DD = 0 then f ! 0 else scanGID ?RF w f"
  have lr: "length (requestedAll H v2r d elsAll) = ?n" for d by (simp add: requestedAll_def)
  have "getContiguousGIDs DD ?RF
          (swap_a2a (AllToAllV_send (map (map length) (requiredAll H v2r DD elsAll)))) ! r
        = map (faceGID H v2r DD elsAll) (concat (requiredAll H v2r DD elsAll ! r))"
    unfolding getContiguousGIDs_def
  proof (rule reply_along_faces[where g = ?g, OF assms(2)])
    show "\<forall>w<?n. (if DD = 0 then map (map (\<lambda>face. face ! 0)) ?RF
                    else map (\<lambda>rank. map (scanGID ?RF rank) (?RF ! rank)) [0..<length ?RF]) ! w
                 = map (?g w) (?RF ! w)"
      by (simp add: lr)
    show "\<forall>w<?n. \<forall>f\<in>set (requiredAll H v2r DD elsAll ! r ! w). ?g w f = faceGID H v2r DD elsAll f"
      using required_owner(1)[OF assms(2)] by (simp add: faceGID_def)
  qed
  with getFaces_Inr(3)[OF assms] show ?thesis by simp
qed

lemma indexOf_nth: "x \<in> set xs \<Longrightarrow> indexOf xs x < length xs \<and> xs ! indexOf xs x = x"
  unfolding indexOf_def
  by (induction xs) auto

lemma sum_list_take_mono:
  assumes "i \<le> j"
  shows "sum_list (take i xs) \<le> sum_list (take j (xs::nat list))"
proof -
  from assms have "take j xs = take i xs @ take (j - i) (drop i xs)"
    using take_add[of i "j - i" xs] by simp
  then show ?thesis by simp
qed

lemma scan_offset:
  assumes "w < length xs"
  shows "mpiScan xs w - xs ! w = sum_list (take w xs)"
  using assms by (simp add: mpiScan_def take_Suc_conv_app_nth)

lemma scanGID_range:
  assumes "w < length RF" and "f \<in> set (RF ! w)"
  shows "sum_list (take w (map (\<lambda>req. length (sort (remdups req))) RF)) \<le> scanGID RF w f"
    and "scanGID RF w f < sum_list (take (Suc w) (map (\<lambda>req. length (sort (remdups req))) RF))"
    and "sort (remdups (RF ! w)) ! (scanGID RF w f
            - sum_list (take w (map (\<lambda>req. length (sort (remdups req))) RF))) = f"
proof -
  let ?sz = "map (\<lambda>req. length (sort (remdups req))) RF"
  let ?own = "sort (remdups (RF ! w))"
  have sz: "map length (map (\<lambda>req. sort (remdups req)) RF) = ?sz" by simp
  have szw: "?sz ! w = length ?own" using assms(1) by simp
  have ow: "map (\<lambda>req. sort (remdups req)) RF ! w = ?own" using assms(1) by simp
  have off: "mpiScan ?sz w - ?sz ! w = sum_list (take w ?sz)"
    using assms(1) by (intro scan_offset) simp
  have g: "scanGID RF w f = sum_list (take w ?sz) + indexOf ?own f"
    unfolding scanGID_def Let_def sz ow off ..
  from assms(2) have "f \<in> set ?own" by simp
  from indexOf_nth[OF this] have i: "indexOf ?own f < length ?own" "?own ! indexOf ?own f = f"
    by blast+
  from g show "sum_list (take w ?sz) \<le> scanGID RF w f" by simp
  have "take (Suc w) ?sz = take w ?sz @ [?sz ! w]"
    using assms(1) by (intro take_Suc_conv_app_nth) simp
  then have "sum_list (take (Suc w) ?sz) = sum_list (take w ?sz) + length ?own"
    unfolding szw by simp
  with g i(1) show "scanGID RF w f < sum_list (take (Suc w) ?sz)" by linarith
  from g i(2) show "?own ! (scanGID RF w f - sum_list (take w ?sz)) = f" by simp
qed

lemma scanGID_inj_same:
  assumes "w < length RF" and "f \<in> set (RF ! w)" and "f' \<in> set (RF ! w)"
    and eq: "scanGID RF w f = scanGID RF w f'"
  shows "f = f'"
proof -
  let ?off = "sum_list (take w (map (\<lambda>req. length (sort (remdups req))) RF))"
  have a: "sort (remdups (RF ! w)) ! (scanGID RF w f - ?off) = f"
    using assms(1,2) by (rule scanGID_range(3))
  have b: "sort (remdups (RF ! w)) ! (scanGID RF w f' - ?off) = f'"
    using assms(1,3) by (rule scanGID_range(3))
  have "f = sort (remdups (RF ! w)) ! (scanGID RF w f' - ?off)"
    using a unfolding eq by (rule sym)
  also note b
  finally show ?thesis .
qed

lemma scanGID_owner:
  assumes "w < length RF" and "f \<in> set (RF ! w)"
    and "w' < length RF" and "f' \<in> set (RF ! w')"
    and "scanGID RF w f = scanGID RF w' f'"
  shows "w = w'"
proof -
  let ?sz = "map (\<lambda>req. length (sort (remdups req))) RF"
  have A1: "sum_list (take w ?sz) \<le> scanGID RF w f"
    and A2: "scanGID RF w f < sum_list (take (Suc w) ?sz)"
    using scanGID_range(1,2)[OF assms(1,2)] by blast+
  have B1: "sum_list (take w' ?sz) \<le> scanGID RF w' f'"
    and B2: "scanGID RF w' f' < sum_list (take (Suc w') ?sz)"
    using scanGID_range(1,2)[OF assms(3,4)] by blast+
  have "\<not> w < w'"
  proof
    assume "w < w'"
    then have "Suc w \<le> w'" by simp
    then have "sum_list (take (Suc w) ?sz) \<le> sum_list (take w' ?sz)"
      by (rule sum_list_take_mono)
    with A2 B1 assms(5) show False by arith
  qed
  moreover have "\<not> w' < w"
  proof
    assume "w' < w"
    then have "Suc w' \<le> w" by simp
    then have "sum_list (take (Suc w') ?sz) \<le> sum_list (take w ?sz)"
      by (rule sum_list_take_mono)
    with B2 A1 assms(5) show False by arith
  qed
  ultimately show "w = w'" by arith
qed

lemma scanGID_inj:
  assumes "w < length RF" and "f \<in> set (RF ! w)"
    and "w' < length RF" and "f' \<in> set (RF ! w')"
    and "scanGID RF w f = scanGID RF w' f'"
  shows "f = f'"
proof -
  have ww: "w = w'" using assms by (rule scanGID_owner)
  show ?thesis
    using assms(1,2) assms(4)[folded ww] assms(5)[folded ww] by (rule scanGID_inj_same)
qed

lemma downward_length: "f \<in> set (downward k s) \<Longrightarrow> length f = Suc k"
  by (simp add: downward_def)

lemma in_concat_nthE:
  assumes "x \<in> set (concat xss)"
  shows "\<exists>k<length xss. x \<in> set (xss ! k)"
proof -
  from assms obtain xs where "xs \<in> set xss" and x: "x \<in> set xs"
    unfolding set_concat by blast
  then obtain k where "k < length xss" and "xss ! k = xs"
    unfolding in_set_conv_nth by blast
  with x show ?thesis by blast
qed

lemma requested_member:
  assumes "r < length elsAll" and "w < length elsAll"
    and "f \<in> set (requiredAll H v2r DD elsAll ! r ! w)"
  shows "f \<in> set (requestedAll H v2r DD elsAll ! w)"
proof -
  let ?n = "length elsAll"
  let ?M = "requiredAll H v2r DD elsAll"
  have "f \<in> set (concat (map (\<lambda>q. ?M ! q ! w) [0..<?n]))"
  proof (rule in_concat_nth[of r])
    show "r < length (map (\<lambda>q. ?M ! q ! w) [0..<?n])" using assms(1) by simp
    show "f \<in> set (map (\<lambda>q. ?M ! q ! w) [0..<?n] ! r)" using assms(1,3) by simp
  qed
  then show ?thesis using assms(2) by (simp add: requestedAll_def)
qed

lemma local_face_cases:
  assumes "getFaces H v2r DD elsAll = Inr lfs" and "r < length elsAll"
    and "f \<in> set (faces (lfs ! r))"
  shows "f \<in> set (concat (map (downward DD) (elsAll ! r))) \<and>
         getPlex2Rank H v2r (length elsAll) DD f < length elsAll \<and>
         f \<in> set (requiredAll H v2r DD elsAll ! r ! getPlex2Rank H v2r (length elsAll) DD f) \<and>
         f \<in> set (requestedAll H v2r DD elsAll ! getPlex2Rank H v2r (length elsAll) DD f)"
proof -
  let ?n = "length elsAll"
  let ?M = "requiredAll H v2r DD elsAll"
  from getFaces_Inr(3)[OF assms(1,2)] have "faces (lfs ! r) = concat (?M ! r)" by simp
  with assms(3) have "f \<in> set (concat (?M ! r))" by simp
  from in_concat_nthE[OF this] obtain w where w0: "w < length (?M ! r)" and fw: "f \<in> set (?M ! r ! w)"
    by blast
  from w0 assms(2) have w: "w < ?n" by (simp add: requiredAll_props)
  have o1: "getPlex2Rank H v2r ?n DD f = w"
    using assms(2) w fw by (rule required_owner(1))
  have o2: "f \<in> set (concat (map (downward DD) (elsAll ! r)))"
    using assms(2) w fw by (rule required_owner(2))
  have rq: "f \<in> set (requestedAll H v2r DD elsAll ! w)"
    using assms(2) w fw by (rule requested_member)
  from o2 w fw rq show ?thesis unfolding o1 by blast
qed

lemma faceGID_inj:
  assumes "getFaces H v2r DD elsAll = Inr lfs"
  shows "inj_on (faceGID H v2r DD elsAll) (set (concat (map faces lfs)))"
proof (rule inj_onI)
  fix f f'
  assume f: "f \<in> set (concat (map faces lfs))" and f': "f' \<in> set (concat (map faces lfs))"
    and eq: "faceGID H v2r DD elsAll f = faceGID H v2r DD elsAll f'"
  let ?n = "length elsAll"
  let ?rk = "getPlex2Rank H v2r ?n DD"
  let ?RF = "requestedAll H v2r DD elsAll"
  have ll: "length lfs = ?n" using assms by (rule getFaces_Inr(1))
  from in_concat_nthE[OF f] obtain r where r: "r < ?n" and fr: "f \<in> set (faces (lfs ! r))"
    using ll by auto
  from in_concat_nthE[OF f'] obtain r' where r': "r' < ?n" and fr': "f' \<in> set (faces (lfs ! r'))"
    using ll by auto
  note a = local_face_cases[OF assms r fr]
  note b = local_face_cases[OF assms r' fr']
  show "f = f'"
  proof (cases "DD = 0")
    case True
    from a True have "length f = Suc 0"
      by (auto dest: downward_length)
    moreover from b True have "length f' = Suc 0"
      by (auto dest: downward_length)
    moreover from eq True have "f ! 0 = f' ! 0" by (simp add: faceGID_def)
    ultimately show ?thesis
      by (cases f; cases f') simp_all
  next
    case False
    have lr: "length ?RF = ?n" by (simp add: requestedAll_def)
    from eq False have e: "scanGID ?RF (?rk f) f = scanGID ?RF (?rk f') f'"
      by (simp add: faceGID_def)
    have 1: "?rk f < length ?RF" using a lr by simp
    have 2: "f \<in> set (?RF ! ?rk f)" using a by blast
    have 3: "?rk f' < length ?RF" using b lr by simp
    have 4: "f' \<in> set (?RF ! ?rk f')" using b by blast
    from 1 2 3 4 e show ?thesis by (rule scanGID_inj)
  qed
qed

lemma getFaces_GIDs_concat:
  assumes "getFaces H v2r DD elsAll = Inr lfs"
  shows "concat (map contiguousGIDs lfs) = map (faceGID H v2r DD elsAll) (concat (map faces lfs))"
proof -
  have ll: "length lfs = length elsAll" using assms by (rule getFaces_Inr(1))
  have m: "map contiguousGIDs lfs = map (\<lambda>lf. map (faceGID H v2r DD elsAll) (faces lf)) lfs"
  proof (rule nth_equalityI)
    show "length (map contiguousGIDs lfs)
            = length (map (\<lambda>lf. map (faceGID H v2r DD elsAll) (faces lf)) lfs)" by simp
    fix r assume "r < length (map contiguousGIDs lfs)"
    then have r: "r < length elsAll" using ll by simp
    from getFaces_GIDs[OF assms r] r ll
    show "map contiguousGIDs lfs ! r = map (\<lambda>lf. map (faceGID H v2r DD elsAll) (faces lf)) lfs ! r"
      by simp
  qed
  have "map (faceGID H v2r DD elsAll) (concat (map faces lfs))
          = concat (map (\<lambda>lf. map (faceGID H v2r DD elsAll) (faces lf)) lfs)"
    by (simp add: map_concat comp_def)
  then show ?thesis unfolding m by (rule sym)
qed

lemma getFaces_returns:
  assumes "0 < DD \<or> v2r = None"
  shows "\<exists>lfs. getFaces H v2r DD elsAll = Inr lfs"
proof -
  let ?n = "length elsAll"
  have "\<not> list_ex (\<lambda>els. list_ex (\<lambda>s. ?n \<le> getPlex2Rank H v2r ?n DD s)
                               (concat (map (downward DD) els))) elsAll"
  proof
    assume "list_ex (\<lambda>els. list_ex (\<lambda>s. ?n \<le> getPlex2Rank H v2r ?n DD s)
                               (concat (map (downward DD) els))) elsAll"
    then obtain els s where "els \<in> set elsAll" and s: "?n \<le> getPlex2Rank H v2r ?n DD s"
      unfolding list_ex_iff by blast
    then have "0 < ?n" by (cases elsAll) simp_all
    then have "getPlex2Rank H v2r ?n DD s < ?n"
      using assms by (auto simp: getPlex2Rank_def)
    with s show False by simp
  qed
  then show ?thesis by (simp add: getFaces_def Let_def)
qed

text \<open>
  C7, as the claim states it, fails for dimension 0: the id of a vertex is its vertex id
  and not an offset of the owner plus an index. For the triangles \<open>[0, 1, 2]\<close> on rank 0
  and \<open>[1, 2, 3]\<close> on rank 1 the vertices 0 and 2 belong to rank 0 and the vertices 1 and
  3 to rank 1; the offset of rank 1 is 2, so offset plus index is 2 for the vertex 1, and
  the id that both ranks receive for it is 1.
\<close>

theorem vertex_GID_is_vertex_id:
  "getFaces sum_list None 0 [[[0, 1, 2]], [[1, 2, 3]]]
     = Inr [\<lparr>faces = [[0], [2], [1]], contiguousGIDs = [0, 2, 1],
              sharedRanks = [0, 0, 1, 0, 1], sharedRanksDispls = [0, 1, 3, 5]\<rparr>,
            \<lparr>faces = [[2], [1], [3]], contiguousGIDs = [2, 1, 3],
              sharedRanks = [0, 1, 0, 1, 1], sharedRanksDispls = [0, 2, 4, 5]\<rparr>] \<and>
   requestedAll sum_list None 0 [[[0, 1, 2]], [[1, 2, 3]]] = [[[0], [2], [2]], [[1], [1], [3]]] \<and>
   scanGID [[[0], [2], [2]], [[1], [1], [3]]] 1 [1] = 2"
  by code_simp

text \<open>
  C7, amended. For every dimension \<open>0 < d < D\<close> the hash owner of a requested face gives
  it the id offset plus index, where the offset is the scan of the numbers of distinct
  requested faces of the owners minus the own number and the index is the position among
  the distinct requested faces of the owner; for \<open>d = 0\<close> the id of a vertex is its vertex
  id. In both cases every rank receives, for each face of its local list, the id of that
  face; over the union of the local face lists different faces have different ids, and
  there are as many ids as faces. For \<open>d > 0\<close>, and for \<open>d = 0\<close> without a vertex
  distribution, the call returns.
\<close>

theorem getFaces_GID_unique:
  "(0 < DD \<or> v2r = None \<longrightarrow> (\<exists>lfs. getFaces H v2r DD elsAll = Inr lfs)) \<and>
   (\<forall>lfs. getFaces H v2r DD elsAll = Inr lfs \<longrightarrow>
      (\<forall>r<length lfs. contiguousGIDs (lfs ! r) = map (faceGID H v2r DD elsAll) (faces (lfs ! r))) \<and>
      inj_on (faceGID H v2r DD elsAll) (set (concat (map faces lfs))) \<and>
      card (set (concat (map contiguousGIDs lfs))) = card (set (concat (map faces lfs))))"
proof (intro conjI allI impI)
  assume "0 < DD \<or> v2r = None"
  then show "\<exists>lfs. getFaces H v2r DD elsAll = Inr lfs" by (rule getFaces_returns)
next
  fix lfs r assume g: "getFaces H v2r DD elsAll = Inr lfs" and "r < length lfs"
  then have "r < length elsAll" using getFaces_Inr(1)[OF g] by simp
  with g show "contiguousGIDs (lfs ! r) = map (faceGID H v2r DD elsAll) (faces (lfs ! r))"
    by (rule getFaces_GIDs)
next
  fix lfs assume g: "getFaces H v2r DD elsAll = Inr lfs"
  then show "inj_on (faceGID H v2r DD elsAll) (set (concat (map faces lfs)))"
    by (rule faceGID_inj)
next
  fix lfs assume g: "getFaces H v2r DD elsAll = Inr lfs"
  have "set (concat (map contiguousGIDs lfs))
          = faceGID H v2r DD elsAll ` set (concat (map faces lfs))"
    unfolding getFaces_GIDs_concat[OF g] by simp
  then show "card (set (concat (map contiguousGIDs lfs))) = card (set (concat (map faces lfs)))"
    using card_image[OF faceGID_inj[OF g]] by simp
qed

theorem getFaces_GID_unique_witness:
  "getFaces sum_list None 1 [[[0, 1, 2]], [[0, 1, 3]]]
     = Inr [\<lparr>faces = [[0, 2], [0, 1], [1, 2]], contiguousGIDs = [0, 2, 4],
        sharedRanks = [0, 0, 1, 0], sharedRanksDispls = [0, 1, 3, 4]\<rparr>,
      \<lparr>faces = [[1, 3], [0, 1], [0, 3]], contiguousGIDs = [1, 2, 3],
        sharedRanks = [1, 0, 1, 1], sharedRanksDispls = [0, 1, 3, 4]\<rparr>] \<and>
   inj_on (faceGID sum_list None 1 [[[0, 1, 2]], [[0, 1, 3]]])
     (set (concat (map faces
       [\<lparr>faces = [[0, 2], [0, 1], [1, 2]], contiguousGIDs = [0, 2, 4],
        sharedRanks = [0, 0, 1, 0], sharedRanksDispls = [0, 1, 3, 4]\<rparr>,
      \<lparr>faces = [[1, 3], [0, 1], [0, 3]], contiguousGIDs = [1, 2, 3],
        sharedRanks = [1, 0, 1, 1], sharedRanksDispls = [0, 1, 3, 4]\<rparr>]))) \<and>
   card (set (concat (map contiguousGIDs
       [\<lparr>faces = [[0, 2], [0, 1], [1, 2]], contiguousGIDs = [0, 2, 4],
        sharedRanks = [0, 0, 1, 0], sharedRanksDispls = [0, 1, 3, 4]\<rparr>,
      \<lparr>faces = [[1, 3], [0, 1], [0, 3]], contiguousGIDs = [1, 2, 3],
        sharedRanks = [1, 0, 1, 1], sharedRanksDispls = [0, 1, 3, 4]\<rparr>])))
     = card (set (concat (map faces
       [\<lparr>faces = [[0, 2], [0, 1], [1, 2]], contiguousGIDs = [0, 2, 4],
        sharedRanks = [0, 0, 1, 0], sharedRanksDispls = [0, 1, 3, 4]\<rparr>,
      \<lparr>faces = [[1, 3], [0, 1], [0, 3]], contiguousGIDs = [1, 2, 3],
        sharedRanks = [1, 0, 1, 1], sharedRanksDispls = [0, 1, 3, 4]\<rparr>])))"
proof -
  have e: "getFaces sum_list None 1 [[[0, 1, 2]], [[0, 1, 3]]]
     = Inr [\<lparr>faces = [[0, 2], [0, 1], [1, 2]], contiguousGIDs = [0, 2, 4],
        sharedRanks = [0, 0, 1, 0], sharedRanksDispls = [0, 1, 3, 4]\<rparr>,
      \<lparr>faces = [[1, 3], [0, 1], [0, 3]], contiguousGIDs = [1, 2, 3],
        sharedRanks = [1, 0, 1, 1], sharedRanksDispls = [0, 1, 3, 4]\<rparr>]"
    by code_simp
  from getFaces_GID_unique[of 1 None sum_list "[[[0, 1, 2]], [[0, 1, 3]]]", THEN conjunct2,
      rule_format, OF e] e
  show ?thesis by blast
qed

subsection \<open>Faces of lower dimension: shared ranks\<close>

lemma zip_upt_nth: "zip ps [0..<length ps] = map (\<lambda>i. (ps ! i, i)) [0..<length ps]"
  by (rule nth_equalityI) simp_all

lemma zip_nth_map: "length ps = length xs \<Longrightarrow> zip ps xs = map (\<lambda>i. (ps ! i, xs ! i)) [0..<length ps]"
  by (rule nth_equalityI) simp_all

lemma filter_zip_index:
  assumes "length ps = length xs"
  shows "map (\<lambda>(p, i). (p, xs ! i)) (filter (\<lambda>(p, i). P p (xs ! i)) (zip ps [0..<length ps]))
           = filter (\<lambda>(p, x). P p x) (zip ps xs)"
proof -
  have "filter (\<lambda>(p, i). P p (xs ! i)) (zip ps [0..<length ps])
          = map (\<lambda>i. (ps ! i, i)) (filter (\<lambda>i. P (ps ! i) (xs ! i)) [0..<length ps])"
    unfolding zip_upt_nth by (simp add: filter_map comp_def)
  moreover have "filter (\<lambda>(p, x). P p x) (zip ps xs)
          = map (\<lambda>i. (ps ! i, xs ! i)) (filter (\<lambda>i. P (ps ! i) (xs ! i)) [0..<length ps])"
    unfolding zip_nth_map[OF assms] by (simp add: filter_map comp_def)
  ultimately show ?thesis by (simp add: comp_def)
qed

lemma zip_replicate_Pair: "zip (replicate (length xs) q) xs = map (Pair q) xs"
  by (induction xs) simp_all

text \<open>The peers of a displacement list, block by block.\<close>

lemma zip_peers_blocks:
  "zip (concat (map (\<lambda>q. replicate (length (X q)) q) qs)) (concat (map X qs))
     = concat (map (\<lambda>q. map (Pair q) (X q)) qs)"
proof -
  have "zip (concat (map (\<lambda>q. replicate (length (X q)) q) qs)) (concat (map X qs))
          = concat (map (\<lambda>q. zip (replicate (length (X q)) q) (X q)) qs)"
    by (rule zip_concat_map) simp
  then show ?thesis by (simp add: zip_replicate_Pair)
qed

lemma filter_snd_Pair_distinct:
  "distinct xs \<Longrightarrow>
     map fst (filter (\<lambda>(p, x). x = f) (map (Pair q) xs)) = (if f \<in> set xs then [q] else [])"
  by (induction xs) auto

lemma concat_if_filter: "concat (map (\<lambda>q. if P q then [q] else []) qs) = filter P qs"
  by (induction qs) simp_all

lemma filter_fst_blocks:
  "distinct qs \<Longrightarrow> p \<in> set qs \<Longrightarrow>
     filter (\<lambda>(q, c). q = p) (concat (map (\<lambda>q. map (Pair q) (X q)) qs)) = map (Pair p) (X p)"
proof (induction qs)
  case Nil
  then show ?case by simp
next
  case (Cons a qs)
  have none: "filter (\<lambda>(q, c). q = p) (concat (map (\<lambda>q. map (Pair q) (X q)) qs)) = []"
    if "p \<notin> set qs"
    using that by (induction qs) (auto simp: filter_empty_conv)
  have blk: "filter (\<lambda>(q, c). q = p) (map (Pair a) (X a)) = (if a = p then map (Pair a) (X a) else [])"
    by (auto simp: filter_empty_conv filter_id_conv)
  show ?case
  proof (cases "a = p")
    case True
    with Cons.prems(1) have "p \<notin> set qs" by simp
    from none[OF this] blk True show ?thesis by simp
  next
    case False
    with Cons.prems have "distinct qs" "p \<in> set qs" by simp_all
    from Cons.IH[OF this] blk False show ?thesis by simp
  qed
qed

lemma peers_of_counts:
  "concat (map (\<lambda>p. replicate (map c [0..<n] ! p) p) [0..<length (map c [0..<n])])
     = concat (map (\<lambda>q. replicate (c q) q) [0..<n])"
proof -
  have "map (\<lambda>p. replicate (map c [0..<n] ! p) p) [0..<n] = map (\<lambda>q. replicate (c q) q) [0..<n]"
    by (rule map_cong) simp_all
  then show ?thesis by (simp only: length_map length_upt diff_zero)
qed

lemma length_peers: "length (concat (map (\<lambda>q. replicate (length (X q)) q) qs)) = length (concat (map X qs))"
  by (induction qs) simp_all

lemma info_generic:
  assumes "\<forall>q\<in>set qs. distinct (X q)"
  shows "sharedRanksInfo (concat (map X qs))
           (zip (concat (map (\<lambda>q. replicate (length (X q)) q) qs))
                [0..<length (concat (map (\<lambda>q. replicate (length (X q)) q) qs))]) f
         = filter (\<lambda>q. f \<in> set (X q)) qs"
proof -
  let ?peers = "concat (map (\<lambda>q. replicate (length (X q)) q) qs)"
  let ?xs = "concat (map X qs)"
  have l: "length ?peers = length ?xs" by (rule length_peers)
  have "map fst (filter (\<lambda>(p, i). ?xs ! i = f) (zip ?peers [0..<length ?peers]))
          = map fst (map (\<lambda>(p, i). (p, ?xs ! i))
                (filter (\<lambda>(p, i). ?xs ! i = f) (zip ?peers [0..<length ?peers])))"
    by (simp add: comp_def case_prod_beta)
  also have "\<dots> = map fst (filter (\<lambda>(p, x). x = f) (zip ?peers ?xs))"
    using filter_zip_index[OF l, of "\<lambda>p x. x = f"] by simp
  also have "zip ?peers ?xs = concat (map (\<lambda>q. map (Pair q) (X q)) qs)"
    by (rule zip_peers_blocks)
  also have "map fst (filter (\<lambda>(p, x). x = f) (concat (map (\<lambda>q. map (Pair q) (X q)) qs)))
          = concat (map (\<lambda>q. map fst (filter (\<lambda>(p, x). x = f) (map (Pair q) (X q)))) qs)"
    by (simp add: filter_concat map_concat comp_def)
  also have "map (\<lambda>q. map fst (filter (\<lambda>(p, x). x = f) (map (Pair q) (X q)))) qs
          = map (\<lambda>q. if f \<in> set (X q) then [q] else []) qs"
    using assms by (intro map_cong refl filter_snd_Pair_distinct) blast
  also have "concat \<dots> = filter (\<lambda>q. f \<in> set (X q)) qs"
    by (rule concat_if_filter)
  finally show ?thesis by (simp add: sharedRanksInfo_def)
qed

lemma count_sum_generic:
  assumes "distinct qs" and "p \<in> set qs"
  shows "sum_list (map (\<lambda>(q, i). concat (map C qs) ! i)
           (filter (\<lambda>(q, i). q = p)
              (zip (concat (map (\<lambda>q. replicate (length (C q)) q) qs))
                   [0..<length (concat (map (\<lambda>q. replicate (length (C q)) q) qs))])))
         = sum_list (C p)"
proof -
  let ?peers = "concat (map (\<lambda>q. replicate (length (C q)) q) qs)"
  let ?cs = "concat (map C qs)"
  let ?F = "filter (\<lambda>(q, i). q = p) (zip ?peers [0..<length ?peers])"
  have l: "length ?peers = length ?cs" by (rule length_peers)
  have "map (\<lambda>(q, i). ?cs ! i) ?F = map snd (map (\<lambda>(q, i). (q, ?cs ! i)) ?F)"
    by (simp add: comp_def case_prod_beta)
  also have "map (\<lambda>(q, i). (q, ?cs ! i)) ?F = filter (\<lambda>(q, x). q = p) (zip ?peers ?cs)"
    using filter_zip_index[OF l, of "\<lambda>q x. q = p"] by simp
  also have "zip ?peers ?cs = concat (map (\<lambda>q. map (Pair q) (C q)) qs)"
    by (rule zip_peers_blocks)
  also have "filter (\<lambda>(q, x). q = p) (concat (map (\<lambda>q. map (Pair q) (C q)) qs)) = map (Pair p) (C p)"
    using assms by (rule filter_fst_blocks)
  finally show ?thesis by (simp add: comp_def)
qed

lemma replyPattern_props:
  assumes "w < length elsAll"
  shows "length (replyPattern H v2r DD elsAll) = length elsAll"
    and "sendcounts (replyPattern H v2r DD elsAll ! w)
           = map (\<lambda>q. length (requiredAll H v2r DD elsAll ! q ! w)) [0..<length elsAll]"
    and "recvcounts (replyPattern H v2r DD elsAll ! w)
           = map (\<lambda>p. length (requiredAll H v2r DD elsAll ! w ! p)) [0..<length elsAll]"
proof -
  let ?n = "length elsAll"
  let ?M = "requiredAll H v2r DD elsAll"
  have l: "length (map (map length) ?M) = ?n" by (simp add: requiredAll_props)
  show "length (replyPattern H v2r DD elsAll) = ?n"
    unfolding replyPattern_def using l assms by (rule swap_send_props(1))
  have "sendcounts (replyPattern H v2r DD elsAll ! w) = map (\<lambda>q. map (map length) ?M ! q ! w) [0..<?n]"
    unfolding replyPattern_def using l assms by (rule swap_send_props(2))
  also have "\<dots> = map (\<lambda>q. length (?M ! q ! w)) [0..<?n]"
    using assms by (intro map_cong refl) (simp add: requiredAll_props)
  finally show "sendcounts (replyPattern H v2r DD elsAll ! w) = map (\<lambda>q. length (?M ! q ! w)) [0..<?n]" .
  have "recvcounts (replyPattern H v2r DD elsAll ! w) = map (map length) ?M ! w"
    unfolding replyPattern_def using l assms by (rule swap_send_props(3))
  also have "\<dots> = map length (?M ! w)"
    using assms by (simp add: requiredAll_props)
  also have "\<dots> = map (\<lambda>p. length (?M ! w ! p)) [0..<?n]"
    using assms by (intro nth_equalityI) (simp_all add: requiredAll_props)
  finally show "recvcounts (replyPattern H v2r DD elsAll ! w) = map (\<lambda>p. length (?M ! w ! p)) [0..<?n]" .
qed

lemma getSDispls_reply:
  assumes "w < length elsAll"
  shows "getSDispls (replyPattern H v2r DD elsAll ! w)
          = zip (concat (map (\<lambda>q. replicate (length (requiredAll H v2r DD elsAll ! q ! w)) q) [0..<length elsAll]))
              [0..<length (concat (map (\<lambda>q. replicate (length (requiredAll H v2r DD elsAll ! q ! w)) q)
                                     [0..<length elsAll]))]"
  unfolding getSDispls_def Let_def replyPattern_props(2)[OF assms] peers_of_counts ..

lemma getRDispls_reply:
  assumes "w < length elsAll"
  shows "getRDispls (replyPattern H v2r DD elsAll ! w)
          = zip (concat (map (\<lambda>p. replicate (length (requiredAll H v2r DD elsAll ! w ! p)) p) [0..<length elsAll]))
              [0..<length (concat (map (\<lambda>p. replicate (length (requiredAll H v2r DD elsAll ! w ! p)) p)
                                     [0..<length elsAll]))]"
  unfolding getRDispls_def Let_def replyPattern_props(3)[OF assms] peers_of_counts ..

lemma required_distinct:
  "q < length elsAll \<Longrightarrow> w < length elsAll \<Longrightarrow> distinct (requiredAll H v2r DD elsAll ! q ! w)"
  by (simp add: requiredAll_props requiredFaces_distinct)

lemma requested_nth:
  "w < length elsAll \<Longrightarrow>
     requestedAll H v2r DD elsAll ! w
       = concat (map (\<lambda>q. requiredAll H v2r DD elsAll ! q ! w) [0..<length elsAll])"
  by (simp add: requestedAll_def)

lemma info_at_owner:
  assumes "w < length elsAll"
  shows "sharedRanksInfo (requestedAll H v2r DD elsAll ! w)
           (getSDispls (replyPattern H v2r DD elsAll ! w)) f
         = sharersAt H v2r DD elsAll w f"
  unfolding requested_nth[OF assms] getSDispls_reply[OF assms] sharersAt_def
  using assms by (intro info_generic) (simp add: required_distinct)

lemma concat_map_concat: "concat (map f (concat xss)) = concat (map (\<lambda>xs. concat (map f xs)) xss)"
  by (induction xss) simp_all

lemma sharers_at_owner:
  assumes "r < length elsAll" and "w < length elsAll"
    and "f \<in> set (requiredAll H v2r DD elsAll ! r ! w)"
  shows "sharersAt H v2r DD elsAll w f = sharers H v2r DD elsAll f"
  using required_owner(1)[OF assms] by (simp add: sharers_def)

lemma sendCount_eq:
  "map (\<lambda>r. map (\<lambda>face. length (sharedRanksInfo (requestedAll H v2r DD elsAll ! r)
                                     (getSDispls (replyPattern H v2r DD elsAll ! r)) face))
               (requestedAll H v2r DD elsAll ! r)) [0..<length elsAll]
   = map (\<lambda>r. map (\<lambda>f. length (sharersAt H v2r DD elsAll r f)) (requestedAll H v2r DD elsAll ! r))
       [0..<length elsAll]"
  by (rule map_cong) (simp_all add: info_at_owner)

lemma requestedSharedRanks_eq:
  "map (\<lambda>r. concat (map (sharedRanksInfo (requestedAll H v2r DD elsAll ! r)
                                     (getSDispls (replyPattern H v2r DD elsAll ! r)))
               (requestedAll H v2r DD elsAll ! r))) [0..<length elsAll]
   = map (\<lambda>r. concat (map (sharersAt H v2r DD elsAll r) (requestedAll H v2r DD elsAll ! r)))
       [0..<length elsAll]"
proof (rule map_cong[OF refl])
  fix r assume "r \<in> set [0..<length elsAll]"
  then have r: "r < length elsAll" by simp
  have "sharedRanksInfo (requestedAll H v2r DD elsAll ! r) (getSDispls (replyPattern H v2r DD elsAll ! r))
          = sharersAt H v2r DD elsAll r"
    by (rule ext) (rule info_at_owner[OF r])
  then show "concat (map (sharedRanksInfo (requestedAll H v2r DD elsAll ! r)
                                     (getSDispls (replyPattern H v2r DD elsAll ! r)))
               (requestedAll H v2r DD elsAll ! r))
      = concat (map (sharersAt H v2r DD elsAll r) (requestedAll H v2r DD elsAll ! r))"
    by simp
qed

lemma recvCount_eq:
  assumes "r < length elsAll"
  shows "exchange (replyPattern H v2r DD elsAll)
           (map (\<lambda>r. map (\<lambda>f. length (sharersAt H v2r DD elsAll r f)) (requestedAll H v2r DD elsAll ! r))
              [0..<length elsAll]) ! r
         = map (\<lambda>f. length (sharers H v2r DD elsAll f)) (concat (requiredAll H v2r DD elsAll ! r))"
  unfolding replyPattern_def
proof (rule reply_along_faces[where g = "\<lambda>w f. length (sharersAt H v2r DD elsAll w f)", OF assms])
  show "\<forall>w<length elsAll.
          map (\<lambda>r. map (\<lambda>f. length (sharersAt H v2r DD elsAll r f)) (requestedAll H v2r DD elsAll ! r))
            [0..<length elsAll] ! w
          = map (\<lambda>f. length (sharersAt H v2r DD elsAll w f)) (requestedAll H v2r DD elsAll ! w)"
    by simp
  show "\<forall>w<length elsAll. \<forall>f\<in>set (requiredAll H v2r DD elsAll ! r ! w).
          length (sharersAt H v2r DD elsAll w f) = length (sharers H v2r DD elsAll f)"
    using sharers_at_owner[OF assms] by simp
qed

lemma send_sum:
  assumes "w < length elsAll" and "p < length elsAll"
  shows "sum_list (map (\<lambda>(q, i). map (\<lambda>f. length (sharersAt H v2r DD elsAll w f))
                                    (requestedAll H v2r DD elsAll ! w) ! i)
           (filter (\<lambda>(q, i). q = p) (getSDispls (replyPattern H v2r DD elsAll ! w))))
         = length (sharedPiece H v2r DD elsAll w p)"
proof -
  let ?n = "length elsAll"
  let ?M = "requiredAll H v2r DD elsAll"
  let ?C = "\<lambda>q. map (\<lambda>f. length (sharersAt H v2r DD elsAll w f)) (?M ! q ! w)"
  have cs: "map (\<lambda>f. length (sharersAt H v2r DD elsAll w f)) (requestedAll H v2r DD elsAll ! w)
              = concat (map ?C [0..<?n])"
    unfolding requested_nth[OF assms(1)] by (simp add: map_concat comp_def)
  have "sum_list (map (\<lambda>(q, i). concat (map ?C [0..<?n]) ! i)
           (filter (\<lambda>(q, i). q = p)
              (zip (concat (map (\<lambda>q. replicate (length (?C q)) q) [0..<?n]))
                   [0..<length (concat (map (\<lambda>q. replicate (length (?C q)) q) [0..<?n]))])))
         = sum_list (?C p)"
    using assms(2) by (intro count_sum_generic) simp_all
  then show ?thesis
    unfolding cs getSDispls_reply[OF assms(1)] sharedPiece_def
    by (simp add: length_concat comp_def)
qed

lemma recv_sum:
  assumes "r < length elsAll" and "p < length elsAll"
  shows "sum_list (map (\<lambda>(q, i). map (\<lambda>f. length (sharers H v2r DD elsAll f))
                                    (concat (requiredAll H v2r DD elsAll ! r)) ! i)
           (filter (\<lambda>(q, i). q = p) (getRDispls (replyPattern H v2r DD elsAll ! r))))
         = length (sharedPiece H v2r DD elsAll p r)"
proof -
  let ?n = "length elsAll"
  let ?M = "requiredAll H v2r DD elsAll"
  let ?C = "\<lambda>q. map (\<lambda>f. length (sharers H v2r DD elsAll f)) (?M ! r ! q)"
  have mr: "?M ! r = map (\<lambda>q. ?M ! r ! q) [0..<?n]"
    using assms(1) by (intro nth_equalityI) (simp_all add: requiredAll_props)
  have "concat (?M ! r) = concat (map (\<lambda>q. ?M ! r ! q) [0..<?n])"
    using mr by simp
  then have cs: "map (\<lambda>f. length (sharers H v2r DD elsAll f)) (concat (?M ! r))
              = concat (map ?C [0..<?n])"
    by (simp add: map_concat comp_def)
  have "sum_list (map (\<lambda>(q, i). concat (map ?C [0..<?n]) ! i)
           (filter (\<lambda>(q, i). q = p)
              (zip (concat (map (\<lambda>q. replicate (length (?C q)) q) [0..<?n]))
                   [0..<length (concat (map (\<lambda>q. replicate (length (?C q)) q) [0..<?n]))])))
         = sum_list (?C p)"
    using assms(2) by (intro count_sum_generic) simp_all
  moreover have "map (\<lambda>f. length (sharers H v2r DD elsAll f)) (?M ! r ! p)
                   = map (\<lambda>f. length (sharersAt H v2r DD elsAll p f)) (?M ! r ! p)"
    using sharers_at_owner[OF assms] by simp
  ultimately show ?thesis
    unfolding cs getRDispls_reply[OF assms(1)] sharedPiece_def
    by (simp add: length_concat comp_def)
qed

lemma sharedPiece_concat:
  assumes "r < length elsAll"
  shows "concat (map (\<lambda>p. sharedPiece H v2r DD elsAll p r) [0..<length elsAll])
           = concat (map (sharers H v2r DD elsAll) (concat (requiredAll H v2r DD elsAll ! r)))"
proof -
  let ?n = "length elsAll"
  let ?M = "requiredAll H v2r DD elsAll"
  have "map (\<lambda>p. sharedPiece H v2r DD elsAll p r) [0..<?n]
          = map (\<lambda>p. concat (map (sharers H v2r DD elsAll) (?M ! r ! p))) [0..<?n]"
  proof (rule map_cong[OF refl])
    fix p assume "p \<in> set [0..<?n]"
    then have p: "p < ?n" by simp
    have m: "map (sharersAt H v2r DD elsAll p) (?M ! r ! p) = map (sharers H v2r DD elsAll) (?M ! r ! p)"
      using sharers_at_owner[OF assms p] by simp
    show "sharedPiece H v2r DD elsAll p r = concat (map (sharers H v2r DD elsAll) (?M ! r ! p))"
      unfolding sharedPiece_def m ..
  qed
  also have "concat \<dots> = concat (map (sharers H v2r DD elsAll) (concat (map (\<lambda>p. ?M ! r ! p) [0..<?n])))"
    by (simp add: concat_map_concat comp_def)
  also have "map (\<lambda>p. ?M ! r ! p) [0..<?n] = ?M ! r"
    using assms by (intro nth_upt_self) (simp add: requiredAll_props)
  finally show ?thesis .
qed

lemma requestedShared_pieces:
  assumes "w < length elsAll"
  shows "concat (map (sharersAt H v2r DD elsAll w) (requestedAll H v2r DD elsAll ! w))
           = concat (map (\<lambda>q. sharedPiece H v2r DD elsAll w q) [0..<length elsAll])"
  unfolding requested_nth[OF assms] sharedPiece_def
  by (simp add: concat_map_concat comp_def)

lemma getSharedRanks_result:
  assumes r: "r < length elsAll"
  shows "getSharedRanks (requestedAll H v2r DD elsAll) (replyPattern H v2r DD elsAll) ! r
           = (concat (map (sharers H v2r DD elsAll) (concat (requiredAll H v2r DD elsAll ! r))),
              Displacements (map (\<lambda>f. length (sharers H v2r DD elsAll f))
                                (concat (requiredAll H v2r DD elsAll ! r))))"
proof -
  let ?n = "length elsAll"
  let ?M = "requiredAll H v2r DD elsAll"
  let ?RF = "requestedAll H v2r DD elsAll"
  let ?A = "replyPattern H v2r DD elsAll"
  let ?SC = "map (\<lambda>r. map (\<lambda>f. length (sharersAt H v2r DD elsAll r f)) (?RF ! r)) [0..<?n]"
  let ?RS = "map (\<lambda>r. concat (map (sharersAt H v2r DD elsAll r) (?RF ! r))) [0..<?n]"
  let ?RC = "exchange ?A ?SC"
  let ?SR = "map (\<lambda>r. \<lparr>sendcounts = map (\<lambda>p. sum_list (map (\<lambda>(q, i). ?SC ! r ! i)
                                           (filter (\<lambda>(q, i). q = p) (getSDispls (?A ! r))))) [0..<?n],
                        recvcounts = map (\<lambda>p. sum_list (map (\<lambda>(q, i). ?RC ! r ! i)
                                           (filter (\<lambda>(q, i). q = p) (getRDispls (?A ! r))))) [0..<?n]\<rparr>)
              [0..<?n]"
  let ?N = "map (\<lambda>p. map (\<lambda>q. sharedPiece H v2r DD elsAll p q) [0..<?n]) [0..<?n]"
  have la: "length ?A = ?n" using r by (rule replyPattern_props(1))
  have sendc: "sendcounts (?SR ! p) = map length (?N ! p)" if p: "p < ?n" for p
  proof -
    have "map (\<lambda>p'. sum_list (map (\<lambda>(q, i). ?SC ! p ! i)
                                (filter (\<lambda>(q, i). q = p') (getSDispls (?A ! p))))) [0..<?n]
            = map (\<lambda>q. length (sharedPiece H v2r DD elsAll p q)) [0..<?n]"
    proof (rule map_cong[OF refl])
      fix p' assume "p' \<in> set [0..<?n]"
      then have p': "p' < ?n" by simp
      from send_sum[OF p p', of H v2r DD] p
      show "sum_list (map (\<lambda>(q, i). ?SC ! p ! i)
                                (filter (\<lambda>(q, i). q = p') (getSDispls (?A ! p))))
              = length (sharedPiece H v2r DD elsAll p p')"
        by simp
    qed
    with p show ?thesis by (simp add: comp_def)
  qed
  have recvc: "recvcounts (?SR ! r') ! p = length (?N ! p ! r')" if r': "r' < ?n" and p: "p < ?n" for r' p
  proof -
    have rc: "?RC ! r' = map (\<lambda>f. length (sharers H v2r DD elsAll f)) (concat (?M ! r'))"
      using r' by (rule recvCount_eq)
    from recv_sum[OF r' p, of H v2r DD] r' p show ?thesis
      unfolding rc[symmetric] by simp
  qed
  have bufs: "?RS ! p = concat (?N ! p)" if p: "p < ?n" for p
    using p requestedShared_pieces[OF p, of H v2r DD] by simp
  have "exchange ?SR ?RS ! r = concat (map (\<lambda>p. ?N ! p ! r) [0..<?n])"
  proof (rule exchange_chunks)
    show "length ?SR = ?n" by simp
    show "\<forall>p<?n. sendcounts (?SR ! p) = map length (?N ! p) \<and> length (?N ! p) = ?n \<and>
                  ?RS ! p = concat (?N ! p)"
      using sendc bufs by simp
    show "\<forall>r<?n. \<forall>p<?n. recvcounts (?SR ! r) ! p = length (?N ! p ! r)"
      using recvc by blast
    show "r < ?n" by (rule r)
  qed
  also have "map (\<lambda>p. ?N ! p ! r) [0..<?n] = map (\<lambda>p. sharedPiece H v2r DD elsAll p r) [0..<?n]"
    using r by simp
  also have "concat \<dots> = concat (map (sharers H v2r DD elsAll) (concat (?M ! r)))"
    using r by (rule sharedPiece_concat)
  finally have ex: "exchange ?SR ?RS ! r = concat (map (sharers H v2r DD elsAll) (concat (?M ! r)))" .
  have rc: "?RC ! r = map (\<lambda>f. length (sharers H v2r DD elsAll f)) (concat (?M ! r))"
    using r by (rule recvCount_eq)
  have "getSharedRanks ?RF ?A ! r = (exchange ?SR ?RS ! r, Displacements (?RC ! r))"
    unfolding getSharedRanks_def Let_def la sendCount_eq requestedSharedRanks_eq
    using r by simp
  then show ?thesis unfolding ex rc .
qed

lemma Displacements_nth:
  assumes "j < length counts"
  shows "Displacements counts ! j = displs counts j"
    and "Displacements counts ! Suc j - displs counts j = counts ! j"
proof -
  have a: "Displacements counts ! j = sum_list (take j counts)"
    using assms by (simp add: Displacements_def del: upt_Suc)
  have b: "Displacements counts ! Suc j = sum_list (take (Suc j) counts)"
    using assms by (simp add: Displacements_def del: upt_Suc)
  from a show "Displacements counts ! j = displs counts j" by (simp add: displs_def)
  from a b assms show "Displacements counts ! Suc j - displs counts j = counts ! j"
    by (simp add: take_Suc_conv_app_nth displs_def)
qed

lemma ragged_read:
  assumes "j < length xs"
  shows "take (Displacements (map (\<lambda>x. length (g x)) xs) ! Suc j
                - Displacements (map (\<lambda>x. length (g x)) xs) ! j)
           (drop (Displacements (map (\<lambda>x. length (g x)) xs) ! j) (concat (map g xs)))
         = g (xs ! j)"
proof -
  let ?c = "map (\<lambda>x. length (g x)) xs"
  have j: "j < length ?c" using assms by simp
  have c: "?c = map length (map g xs)" by (simp add: comp_def)
  have "chunk (map length (map g xs)) (concat (map g xs)) j = map g xs ! j"
    using assms by (intro chunk_concat) simp
  then have "take (?c ! j) (drop (displs ?c j) (concat (map g xs))) = g (xs ! j)"
    using assms unfolding c[symmetric] chunk_def by simp
  then show ?thesis
    unfolding Displacements_nth(1)[OF j] Displacements_nth(2)[OF j] .
qed

lemma getFaces_shared:
  assumes "getFaces H v2r DD elsAll = Inr lfs" and "r < length elsAll"
  shows "sharedRanks (lfs ! r) = concat (map (sharers H v2r DD elsAll) (faces (lfs ! r)))"
    and "sharedRanksDispls (lfs ! r)
           = Displacements (map (\<lambda>f. length (sharers H v2r DD elsAll f)) (faces (lfs ! r)))"
  using getFaces_Inr(3)[OF assms] getSharedRanks_result[OF assms(2), of H v2r DD]
  unfolding replyPattern_def by simp_all

lemma sharedRanksOf_sharers:
  assumes "getFaces H v2r DD elsAll = Inr lfs" and "r < length elsAll"
  shows "sharedRanksOf (lfs ! r) f
           = (if f \<in> set (faces (lfs ! r)) then sharers H v2r DD elsAll f else [])"
proof (cases "f \<in> set (faces (lfs ! r))")
  case False
  then show ?thesis by (simp add: sharedRanksOf_def)
next
  case True
  from indexOf_nth[OF True] have j: "indexOf (faces (lfs ! r)) f < length (faces (lfs ! r))"
    and n: "faces (lfs ! r) ! indexOf (faces (lfs ! r)) f = f" by blast+
  have "sharedRanksAt (lfs ! r) (indexOf (faces (lfs ! r)) f)
          = sharers H v2r DD elsAll (faces (lfs ! r) ! indexOf (faces (lfs ! r)) f)"
    unfolding sharedRanksAt_def getFaces_shared[OF assms] using j by (rule ragged_read)
  with True n show ?thesis by (simp add: sharedRanksOf_def)
qed

lemma sharers_set:
  assumes "getFaces H v2r DD elsAll = Inr lfs" and "r < length elsAll"
    and "f \<in> set (faces (lfs ! r))"
  shows "set (sharers H v2r DD elsAll f) = {q. q < length elsAll \<and> f \<in> set (faces (lfs ! q))}"
proof -
  let ?n = "length elsAll"
  let ?M = "requiredAll H v2r DD elsAll"
  let ?w = "getPlex2Rank H v2r ?n DD f"
  from local_face_cases[OF assms] have w: "?w < ?n" by blast
  have "f \<in> set (?M ! q ! ?w) \<longleftrightarrow> f \<in> set (faces (lfs ! q))" if q: "q < ?n" for q
  proof
    assume m: "f \<in> set (?M ! q ! ?w)"
    have "f \<in> set (concat (?M ! q))"
      using m w q by (intro in_concat_nth[of ?w]) (simp_all add: requiredAll_props)
    then show "f \<in> set (faces (lfs ! q))"
      using getFaces_Inr(3)[OF assms(1) q] by simp
  next
    assume "f \<in> set (faces (lfs ! q))"
    from local_face_cases[OF assms(1) q this] show "f \<in> set (?M ! q ! ?w)" by blast
  qed
  then show ?thesis
    by (auto simp: sharers_def sharersAt_def)
qed

text \<open>
  C8. The table of shared ranks is symmetric and contains the requester: on every rank
  \<open>q\<close> the entry of a face of the local list is the list of all ranks whose local list
  contains the face, so \<open>p\<close> is in the entry on \<open>q\<close> exactly when \<open>q\<close> is in the entry on
  \<open>p\<close>, and \<open>q\<close> is in its own entries. (A rank without the face has no entry for it.)
  For \<open>d > 0\<close>, and for \<open>d = 0\<close> without a vertex distribution, the call returns.
\<close>

theorem sharedRanks_symmetric:
  "(0 < DD \<or> v2r = None \<longrightarrow> (\<exists>lfs. getFaces H v2r DD elsAll = Inr lfs)) \<and>
   (\<forall>lfs. getFaces H v2r DD elsAll = Inr lfs \<longrightarrow>
      (\<forall>q<length lfs. \<forall>f.
          set (sharedRanksOf (lfs ! q) f)
            = (if f \<in> set (faces (lfs ! q))
               then {p. p < length lfs \<and> f \<in> set (faces (lfs ! p))} else {}) \<and>
          (f \<in> set (faces (lfs ! q)) \<longrightarrow> q \<in> set (sharedRanksOf (lfs ! q) f)) \<and>
          (\<forall>p<length lfs. p \<in> set (sharedRanksOf (lfs ! q) f)
                            \<longleftrightarrow> q \<in> set (sharedRanksOf (lfs ! p) f))))"
proof (intro conjI allI impI)
  assume "0 < DD \<or> v2r = None"
  then show "\<exists>lfs. getFaces H v2r DD elsAll = Inr lfs" by (rule getFaces_returns)
next
  fix lfs q f
  assume g: "getFaces H v2r DD elsAll = Inr lfs" and q: "q < length lfs"
  have ll: "length lfs = length elsAll" using g by (rule getFaces_Inr(1))
  have char: "set (sharedRanksOf (lfs ! r) f)
            = (if f \<in> set (faces (lfs ! r))
               then {p. p < length lfs \<and> f \<in> set (faces (lfs ! p))} else {})"
    if "r < length lfs" for r
  proof (cases "f \<in> set (faces (lfs ! r))")
    case True
    from that ll have r: "r < length elsAll" by simp
    from sharedRanksOf_sharers[OF g r, of f] sharers_set[OF g r True] True ll
    show ?thesis by simp
  next
    case False
    from that ll have r: "r < length elsAll" by simp
    from sharedRanksOf_sharers[OF g r, of f] False show ?thesis by simp
  qed
  show "set (sharedRanksOf (lfs ! q) f)
            = (if f \<in> set (faces (lfs ! q))
               then {p. p < length lfs \<and> f \<in> set (faces (lfs ! p))} else {})"
    using q by (rule char)
  show "q \<in> set (sharedRanksOf (lfs ! q) f)" if "f \<in> set (faces (lfs ! q))"
    using char[OF q] q that by simp
  show "p \<in> set (sharedRanksOf (lfs ! q) f) \<longleftrightarrow> q \<in> set (sharedRanksOf (lfs ! p) f)"
    if "p < length lfs" for p
    using char[OF q] char[OF that] q that by auto
qed

theorem sharedRanks_symmetric_witness:
  "getFaces sum_list None 1 [[[0, 1, 2]], [[0, 1, 3]]]
     = Inr [\<lparr>faces = [[0, 2], [0, 1], [1, 2]], contiguousGIDs = [0, 2, 4],
              sharedRanks = [0, 0, 1, 0], sharedRanksDispls = [0, 1, 3, 4]\<rparr>,
            \<lparr>faces = [[1, 3], [0, 1], [0, 3]], contiguousGIDs = [1, 2, 3],
              sharedRanks = [1, 0, 1, 1], sharedRanksDispls = [0, 1, 3, 4]\<rparr>] \<and>
   sharedRanksOf \<lparr>faces = [[0, 2], [0, 1], [1, 2]], contiguousGIDs = [0, 2, 4],
              sharedRanks = [0, 0, 1, 0], sharedRanksDispls = [0, 1, 3, 4]\<rparr> [0, 1] = [0, 1] \<and>
   sharedRanksOf \<lparr>faces = [[1, 3], [0, 1], [0, 3]], contiguousGIDs = [1, 2, 3],
              sharedRanks = [1, 0, 1, 1], sharedRanksDispls = [0, 1, 3, 4]\<rparr> [0, 1] = [0, 1] \<and>
   (1 \<in> set (sharedRanksOf \<lparr>faces = [[0, 2], [0, 1], [1, 2]], contiguousGIDs = [0, 2, 4],
              sharedRanks = [0, 0, 1, 0], sharedRanksDispls = [0, 1, 3, 4]\<rparr> [0, 1])) =
   (0 \<in> set (sharedRanksOf \<lparr>faces = [[1, 3], [0, 1], [0, 3]], contiguousGIDs = [1, 2, 3],
              sharedRanks = [1, 0, 1, 1], sharedRanksDispls = [0, 1, 3, 4]\<rparr> [0, 1]))"
proof -
  let ?L = "[\<lparr>faces = [[0, 2], [0, 1], [1, 2]], contiguousGIDs = [0, 2, 4],
              sharedRanks = [0, 0, 1, 0], sharedRanksDispls = [0, 1, 3, 4]\<rparr>,
            \<lparr>faces = [[1, 3], [0, 1], [0, 3]], contiguousGIDs = [1, 2, 3],
              sharedRanks = [1, 0, 1, 1], sharedRanksDispls = [0, 1, 3, 4::nat]\<rparr>]"
  have e: "getFaces sum_list None 1 [[[0, 1, 2]], [[0, 1, 3]]] = Inr ?L"
    by code_simp
  have a: "sharedRanksOf \<lparr>faces = [[0, 2], [0, 1], [1, 2]], contiguousGIDs = [0, 2, 4],
              sharedRanks = [0, 0, 1, 0], sharedRanksDispls = [0, 1, 3, 4]\<rparr> [0, 1] = [0, 1]"
    by code_simp
  have b: "sharedRanksOf \<lparr>faces = [[1, 3], [0, 1], [0, 3]], contiguousGIDs = [1, 2, 3],
              sharedRanks = [1, 0, 1, 1], sharedRanksDispls = [0, 1, 3, 4]\<rparr> [0, 1] = [0, 1]"
    by code_simp
  have q: "(0::nat) < length ?L" and p: "(1::nat) < length ?L" by simp_all
  have n0: "?L ! 0 = \<lparr>faces = [[0, 2], [0, 1], [1, 2]], contiguousGIDs = [0, 2, 4],
              sharedRanks = [0, 0, 1, 0], sharedRanksDispls = [0, 1, 3, 4]\<rparr>" by simp
  have n1: "?L ! 1 = \<lparr>faces = [[1, 3], [0, 1], [0, 3]], contiguousGIDs = [1, 2, 3],
              sharedRanks = [1, 0, 1, 1], sharedRanksDispls = [0, 1, 3, 4]\<rparr>" by simp
  from sharedRanks_symmetric[of 1 None sum_list "[[[0, 1, 2]], [[0, 1, 3]]]", THEN conjunct2,
      rule_format, OF e q, of "[0, 1]", THEN conjunct2, THEN conjunct2, rule_format, OF p]
  have "(1 \<in> set (sharedRanksOf (?L ! 0) [0, 1])) = (0 \<in> set (sharedRanksOf (?L ! 1) [0, 1]))" .
  then have s: "(1 \<in> set (sharedRanksOf \<lparr>faces = [[0, 2], [0, 1], [1, 2]], contiguousGIDs = [0, 2, 4],
              sharedRanks = [0, 0, 1, 0], sharedRanksDispls = [0, 1, 3, 4]\<rparr> [0, 1])) =
   (0 \<in> set (sharedRanksOf \<lparr>faces = [[1, 3], [0, 1], [0, 3]], contiguousGIDs = [1, 2, 3],
              sharedRanks = [1, 0, 1, 1], sharedRanksDispls = [0, 1, 3, 4]\<rparr> [0, 1]))"
    unfolding n0 n1 .
  from e a b s show ?thesis by (intro conjI)
qed

end
